theory Spec2Isabelle
  imports Main "HOL-Library.Multiset"
begin

section \<open>Data model\<close>

text \<open>
  \<^verbatim>\<open>type WordCount struct { Word string; Count int }\<close>

  Go's \<^verbatim>\<open>int\<close> is a 64-bit signed integer. Counts are modelled as \<open>int\<close>; the one
  place where the program does arithmetic on them (\<^verbatim>\<open>count + 1\<close> in countWords) has
  the 64-bit wrap-around written out (\<open>wrap64\<close>).
\<close>

record WordCount =
  Word :: string
  Count :: int

text \<open>A run-time panic of the Go program.\<close>

datatype panic = ReadError | SliceBoundsOutOfRange | ParseError

definition wrap64 :: "int \<Rightarrow> int" where
  "wrap64 x = (x + 2 ^ 63) mod 2 ^ 64 - 2 ^ 63"

section \<open>countWords\<close>

text \<open>
  \<^verbatim>\<open>
  func countWords(words []string) map[string]int {
      frequencyMap := make(map[string]int)
      for _, word := range words {
          count, exists := frequencyMap[word]
          if exists { frequencyMap[word] = count + 1 }
          else      { frequencyMap[word] = 1 }
      }
      return frequencyMap
  }
  \<close>
  \<open>countWords_body\<close> is one iteration of the loop, \<open>countWords_loop\<close> the loop from a
  given state of \<^verbatim>\<open>frequencyMap\<close>.
\<close>

definition countWords_body :: "(string \<rightharpoonup> int) \<Rightarrow> string \<Rightarrow> (string \<rightharpoonup> int)" where
  "countWords_body frequencyMap word =
     (case frequencyMap word of
        Some cnt \<Rightarrow> frequencyMap(word \<mapsto> wrap64 (cnt + 1))
      | None \<Rightarrow> frequencyMap(word \<mapsto> 1))"

fun countWords_loop :: "(string \<rightharpoonup> int) \<Rightarrow> string list \<Rightarrow> (string \<rightharpoonup> int)" where
  "countWords_loop frequencyMap [] = frequencyMap"
| "countWords_loop frequencyMap (word # words) =
     countWords_loop (countWords_body frequencyMap word) words"

definition countWords :: "string list \<Rightarrow> (string \<rightharpoonup> int)" where
  "countWords words = countWords_loop Map.empty words"

section \<open>parseFile\<close>

text \<open>
  \<^verbatim>\<open>
  func parseFile(path string) []string {
      bytes, readError := ioutil.ReadFile(path)
      if readError != nil { panic(readError) }
      fileAsString := string(bytes)
      nonAlphabeticRegex := regexp.MustCompile(NONALPHA)
      fileAlpha := nonAlphabeticRegex.ReplaceAllString(fileAsString, "")
      fileAlpha = strings.ToLower(fileAlpha)
      whitespaceRegex := regexp.MustCompile(SPACES)
      fileAsWords := whitespaceRegex.Split(fileAlpha, -1)
      return fileAsWords
  }
  \<close>
  where NONALPHA is the pattern "every character that is not a-z, not A-Z and not in the
  class s" and SPACES is the pattern "one or more characters of the class s". In Go's
  regexp syntax (RE2) the class s is tab, line feed, form feed, carriage return and
  space.

  Strings are byte strings, as in Go. Go's regexp reads UTF-8, and every byte of a
  character outside ASCII is at least 0x80 (an invalid byte is read as U+FFFD), so
  NONALPHA deletes exactly the bytes that are neither ASCII letters nor in the class s:
  filtering bytes is what \<^verbatim>\<open>ReplaceAllString\<close> does here. What is left is ASCII, on
  which \<^verbatim>\<open>strings.ToLower\<close> adds 'a' - 'A' to the upper-case letters.
\<close>

definition isSpace :: "char \<Rightarrow> bool" where
  "isSpace c = (c \<in> set [CHR 0x09, CHR 0x0A, CHR 0x0C, CHR 0x0D, CHR '' ''])"

definition isLetter :: "char \<Rightarrow> bool" where
  "isLetter c = (c \<in> set ''abcdefghijklmnopqrstuvwxyzABCDEFGHIJKLMNOPQRSTUVWXYZ'')"

definition nonAlphabetic_ReplaceAllString :: "string \<Rightarrow> string" where
  "nonAlphabetic_ReplaceAllString s = filter (\<lambda>c. isLetter c \<or> isSpace c) s"

definition toLower :: "char \<Rightarrow> char" where
  "toLower c = (if c \<in> set ''ABCDEFGHIJKLMNOPQRSTUVWXYZ''
                then char_of (of_char c + (32::nat)) else c)"

definition strings_ToLower :: "string \<Rightarrow> string" where
  "strings_ToLower s = map toLower s"

text \<open>
  \<^verbatim>\<open>FindAllStringIndex\<close> for SPACES: the successive matches, leftmost and longest, as pairs
  of the index where a run of whitespace starts and the index where it ends.
\<close>

function whitespace_FindAllStringIndex :: "string \<Rightarrow> nat \<Rightarrow> (nat \<times> nat) list" where
  "whitespace_FindAllStringIndex s pos =
     (if length s \<le> pos then []
      else if isSpace (s ! pos)
      then (let e = pos + length (takeWhile isSpace (drop pos s))
            in (pos, e) # whitespace_FindAllStringIndex s e)
      else whitespace_FindAllStringIndex s (Suc pos))"
  by pat_completeness auto
termination
proof (relation "measure (\<lambda>(s, pos). length s - pos)", goal_cases)
  case 1
  then show ?case by simp
next
  case (2 s pos e)
  from 2(1) obtain c cs where d: "drop pos s = c # cs"
    by (cases "drop pos s") auto
  with 2(1) have "c = s ! pos" by (metis hd_drop_conv_nth list.sel(1) not_le)
  with 2(2) d have "0 < length (takeWhile isSpace (drop pos s))" by simp
  moreover have "length (takeWhile isSpace (drop pos s)) \<le> length (drop pos s)"
    by (rule length_takeWhile_le)
  moreover have "length (drop pos s) = length s - pos" by simp
  ultimately have "length s - e < length s - pos" using 2(1,3) by linarith
  then show ?case by simp
next
  case 3
  then show ?case by simp
qed

declare whitespace_FindAllStringIndex.simps [simp del]

text \<open>
  The method \<^verbatim>\<open>Split(s, n)\<close> of a compiled regular expression, with \<open>n = -1\<close> (package regexp):
  \<^verbatim>\<open>
      if len(re.expr) > 0 && len(s) == 0 { return []string{""} }
      matches := re.FindAllStringIndex(s, n)
      strings := make([]string, 0, len(matches))
      beg := 0
      end := 0
      for _, match := range matches {
          end = match[0]
          if match[1] != 0 { strings = append(strings, s[beg:end]) }
          beg = match[1]
      }
      if end != len(s) { strings = append(strings, s[beg:]) }
      return strings
  \<close>
  Nothing in it, and nothing in parseFile, drops an empty string.
\<close>

fun split_loop :: "string \<Rightarrow> (nat \<times> nat) list \<Rightarrow> nat \<Rightarrow> nat \<Rightarrow> string list
                     \<Rightarrow> string list \<times> nat \<times> nat" where
  "split_loop s [] beg en strings = (strings, beg, en)"
| "split_loop s ((m0, m1) # matches) beg en strings =
     split_loop s matches m1 m0
       (if m1 \<noteq> 0 then strings @ [take (m0 - beg) (drop beg s)] else strings)"

definition whitespace_Split :: "string \<Rightarrow> string list" where
  "whitespace_Split s =
     (if s = [] then ['''']
      else (case split_loop s (whitespace_FindAllStringIndex s 0) 0 0 [] of
              (strings, beg, en) \<Rightarrow>
                if en \<noteq> length s then strings @ [drop beg s] else strings))"

text \<open>
  The file system is a map from paths to contents; a path it does not hold is the read
  error, on which parseFile panics.
\<close>

definition parseFile :: "(string \<rightharpoonup> string) \<Rightarrow> string \<Rightarrow> panic + string list" where
  "parseFile files path =
     (case files path of
        None \<Rightarrow> Inl ReadError
      | Some fileAsString \<Rightarrow>
          (let fileAlpha = nonAlphabetic_ReplaceAllString fileAsString;
               fileAlpha = strings_ToLower fileAlpha;
               fileAsWords = whitespace_Split fileAlpha
           in Inr fileAsWords))"

section \<open>sort.SliceStable\<close>

text \<open>
  complete sorts with \<^verbatim>\<open>sort.SliceStable\<close> of Go's standard library, and hands it a
  \<^verbatim>\<open>less\<close> function that is not a strict ordering. What the call returns is then decided
  by the library's algorithm and not by its documented contract, so the algorithm is
  modelled as the library has it (package sort, \<^verbatim>\<open>stable_func\<close> and the functions it
  calls): insertion sort on blocks of 20 elements, then rounds of in-place merging
  (SymMerge) of neighbouring blocks.

  The slice being sorted is a list, returned updated; indices are natural numbers
  (\<^verbatim>\<open>int(uint(i+j) >> 1)\<close> is \<open>(i + j) div 2\<close>). The \<^verbatim>\<open>less\<close> closure reads the slice at the
  moment it is called, so it takes the current list with the two indices.
\<close>

type_synonym 'a lessFn = "'a list \<Rightarrow> nat \<Rightarrow> nat \<Rightarrow> bool"

text \<open>\<^verbatim>\<open>data.Swap(i, j)\<close>\<close>

definition swap :: "'a list \<Rightarrow> nat \<Rightarrow> nat \<Rightarrow> 'a list" where
  "swap data i j = data[i := data ! j, j := data ! i]"

text \<open>
  \<^verbatim>\<open>
  func insertionSort_func(data lessSwap, a, b int) {
      for i := a + 1; i < b; i++ {
          for j := i; j > a && data.Less(j, j-1); j-- {
              data.Swap(j, j-1)
          }
      }
  }
  \<close>
\<close>

fun insertionSort_inner :: "'a lessFn \<Rightarrow> 'a list \<Rightarrow> nat \<Rightarrow> nat \<Rightarrow> 'a list" where
  "insertionSort_inner less_fn data a j =
     (if a < j \<and> less_fn data j (j - 1)
      then insertionSort_inner less_fn (swap data j (j - 1)) a (j - 1)
      else data)"

declare insertionSort_inner.simps [simp del]

function insertionSort_outer :: "'a lessFn \<Rightarrow> 'a list \<Rightarrow> nat \<Rightarrow> nat \<Rightarrow> nat \<Rightarrow> 'a list" where
  "insertionSort_outer less_fn data a b i =
     (if i < b
      then insertionSort_outer less_fn (insertionSort_inner less_fn data a i) a b (i + 1)
      else data)"
  by pat_completeness auto
termination
  by (relation "measure (\<lambda>(less_fn, data, a, b, i). b - i)") auto

declare insertionSort_outer.simps [simp del]

definition insertionSort_func :: "'a lessFn \<Rightarrow> 'a list \<Rightarrow> nat \<Rightarrow> nat \<Rightarrow> 'a list" where
  "insertionSort_func less_fn data a b = insertionSort_outer less_fn data a b (a + 1)"

text \<open>
  symMerge_func has three binary searches of one shape,
  \<^verbatim>\<open>
      for i < j {
          h := int(uint(i+j) >> 1)
          if COND(h) { i = h + 1 } else { j = h }
      }
  \<close>
  which differ in the condition only; \<open>symMerge_search\<close> is that loop, returning the
  final \<open>i\<close>.
\<close>

function symMerge_search :: "(nat \<Rightarrow> bool) \<Rightarrow> nat \<Rightarrow> nat \<Rightarrow> nat" where
  "symMerge_search cond i j =
     (if i < j
      then (let h = (i + j) div 2
            in if cond h then symMerge_search cond (h + 1) j
               else symMerge_search cond i h)
      else i)"
  by pat_completeness auto
termination
  by (relation "measure (\<lambda>(cond, i, j). j - i)") auto

declare symMerge_search.simps [simp del]

text \<open>\<^verbatim>\<open>for k := a; k < i-1; k++ { data.Swap(k, k+1) }\<close>, with \<open>lim\<close> for \<^verbatim>\<open>i-1\<close>\<close>

function swap_up :: "'a list \<Rightarrow> nat \<Rightarrow> nat \<Rightarrow> 'a list" where
  "swap_up data k lim =
     (if k < lim then swap_up (swap data k (k + 1)) (k + 1) lim else data)"
  by pat_completeness auto
termination
  by (relation "measure (\<lambda>(data, k, lim). lim - k)") auto

declare swap_up.simps [simp del]

text \<open>\<^verbatim>\<open>for k := m; k > i; k-- { data.Swap(k, k-1) }\<close>\<close>

fun swap_down :: "'a list \<Rightarrow> nat \<Rightarrow> nat \<Rightarrow> 'a list" where
  "swap_down data k i =
     (if i < k then swap_down (swap data k (k - 1)) (k - 1) i else data)"

declare swap_down.simps [simp del]

text \<open>
  \<^verbatim>\<open>
  func swapRange_func(data lessSwap, a, b, n int) {
      for i := 0; i < n; i++ { data.Swap(a+i, b+i) }
  }
  \<close>
\<close>

function swapRange_loop :: "'a list \<Rightarrow> nat \<Rightarrow> nat \<Rightarrow> nat \<Rightarrow> nat \<Rightarrow> 'a list" where
  "swapRange_loop data a b n i =
     (if i < n then swapRange_loop (swap data (a + i) (b + i)) a b n (i + 1) else data)"
  by pat_completeness auto
termination
  by (relation "measure (\<lambda>(data, a, b, n, i). n - i)") auto

declare swapRange_loop.simps [simp del]

definition swapRange_func :: "'a list \<Rightarrow> nat \<Rightarrow> nat \<Rightarrow> nat \<Rightarrow> 'a list" where
  "swapRange_func data a b n = swapRange_loop data a b n 0"

text \<open>
  \<^verbatim>\<open>
  func rotate_func(data lessSwap, a, m, b int) {
      i := m - a
      j := b - m
      for i != j {
          if i > j { swapRange_func(data, m-i, m, j); i -= j }
          else     { swapRange_func(data, m-i, m+j-i, i); j -= i }
      }
      swapRange_func(data, m-i, m, i)
  }
  \<close>
  symMerge_func calls it with \<open>a < m < b\<close> only, so both \<open>i\<close> and \<open>j\<close> start positive
  and stay so. With one of them zero the Go loop would not end; the model's loop ends
  there, which keeps it a total function and changes nothing that is ever called.
\<close>

function rotate_loop :: "'a list \<Rightarrow> nat \<Rightarrow> nat \<Rightarrow> nat \<Rightarrow> 'a list" where
  "rotate_loop data m i j =
     (if i \<noteq> j \<and> 0 < i \<and> 0 < j
      then (if j < i
            then rotate_loop (swapRange_func data (m - i) m j) m (i - j) j
            else rotate_loop (swapRange_func data (m - i) (m + j - i) i) m i (j - i))
      else swapRange_func data (m - i) m i)"
  by pat_completeness auto
termination
  by (relation "measure (\<lambda>(data, m, i, j). i + j)") auto

declare rotate_loop.simps [simp del]

definition rotate_func :: "'a list \<Rightarrow> nat \<Rightarrow> nat \<Rightarrow> nat \<Rightarrow> 'a list" where
  "rotate_func data a m b = rotate_loop data m (m - a) (b - m)"

text \<open>
  \<^verbatim>\<open>
  func symMerge_func(data lessSwap, a, m, b int) {
      if m-a == 1 {
          i := m
          j := b
          for i < j {
              h := int(uint(i+j) >> 1)
              if data.Less(h, a) { i = h + 1 } else { j = h }
          }
          for k := a; k < i-1; k++ { data.Swap(k, k+1) }
          return
      }
      if b-m == 1 {
          i := a
          j := m
          for i < j {
              h := int(uint(i+j) >> 1)
              if !data.Less(m, h) { i = h + 1 } else { j = h }
          }
          for k := m; k > i; k-- { data.Swap(k, k-1) }
          return
      }
      mid := int(uint(a+b) >> 1)
      n := mid + m
      var start, r int
      if m > mid { start = n - b; r = mid } else { start = a; r = m }
      p := n - 1
      for start < r {
          c := int(uint(start+r) >> 1)
          if !data.Less(p-c, c) { start = c + 1 } else { r = c }
      }
      end := n - start
      if start < m && m < end { rotate_func(data, start, m, end) }
      if a < start && start < mid { symMerge_func(data, a, start, mid) }
      if mid < end && end < b { symMerge_func(data, mid, end, b) }
  }
  \<close>
\<close>

function symMerge_func :: "'a lessFn \<Rightarrow> 'a list \<Rightarrow> nat \<Rightarrow> nat \<Rightarrow> nat \<Rightarrow> 'a list" where
  "symMerge_func less_fn data a m b =
     (if m - a = 1 then
        (let i = symMerge_search (\<lambda>h. less_fn data h a) m b
         in swap_up data a (i - 1))
      else if b - m = 1 then
        (let i = symMerge_search (\<lambda>h. \<not> less_fn data m h) a m
         in swap_down data m i)
      else
        (let mid = (a + b) div 2;
             n = mid + m;
             start0 = (if mid < m then n - b else a);
             r = (if mid < m then mid else m);
             p = n - 1;
             start = symMerge_search (\<lambda>c. \<not> less_fn data (p - c) c) start0 r;
             en = n - start;
             data1 = (if start < m \<and> m < en then rotate_func data start m en else data);
             data2 = (if a < start \<and> start < mid
                      then symMerge_func less_fn data1 a start mid else data1)
         in if mid < en \<and> en < b then symMerge_func less_fn data2 mid en b else data2))"
  by pat_completeness auto
termination
proof (relation "measure (\<lambda>(less_fn, data, a, m, b). b - a)", goal_cases)
  case 1
  show ?case by simp
next
  case (2 less_fn data a m b mid)
  from 2(3,11) have "mid - a < b - a" by linarith
  then show ?case by simp
next
  case (3 less_fn data a m b mid n start0 r p start en)
  from 3(3,12) have "b - mid < b - a" by linarith
  then show ?case by simp
qed

declare symMerge_func.simps [simp del]

text \<open>
  \<^verbatim>\<open>
  func stable_func(data lessSwap, n int) {
      blockSize := 20 // must be > 0
      a, b := 0, blockSize
      for b <= n {
          insertionSort_func(data, a, b)
          a = b
          b += blockSize
      }
      insertionSort_func(data, a, n)
      for blockSize < n {
          a, b = 0, 2*blockSize
          for b <= n {
              symMerge_func(data, a, a+blockSize, b)
              a = b
              b += 2 * blockSize
          }
          if m := a + blockSize; m < n { symMerge_func(data, a, m, n) }
          blockSize *= 2
      }
  }
  \<close>
  \<open>stable_blocks\<close> is the first loop with the call that follows it, \<open>stable_merge_blocks\<close>
  the inner loop of the second with the \<^verbatim>\<open>if\<close> that follows it, \<open>stable_passes\<close> the
  outer loop of the second. \<^verbatim>\<open>blockSize\<close> is 20 and is only ever doubled; the two loops
  that have it as a variable also stop at \<open>blockSize = 0\<close>, where the Go loops would
  not end, so that they are total functions.
\<close>

function stable_blocks :: "'a lessFn \<Rightarrow> 'a list \<Rightarrow> nat \<Rightarrow> nat \<Rightarrow> nat \<Rightarrow> 'a list" where
  "stable_blocks less_fn data n a b =
     (if b \<le> n
      then stable_blocks less_fn (insertionSort_func less_fn data a b) n b (b + 20)
      else insertionSort_func less_fn data a n)"
  by pat_completeness auto
termination
  by (relation "measure (\<lambda>(less_fn, data, n, a, b). n + 20 - b)") auto

declare stable_blocks.simps [simp del]

function stable_merge_blocks ::
  "'a lessFn \<Rightarrow> 'a list \<Rightarrow> nat \<Rightarrow> nat \<Rightarrow> nat \<Rightarrow> nat \<Rightarrow> 'a list" where
  "stable_merge_blocks less_fn data n blockSize a b =
     (if b \<le> n \<and> 0 < blockSize
      then stable_merge_blocks less_fn (symMerge_func less_fn data a (a + blockSize) b)
             n blockSize b (b + 2 * blockSize)
      else if a + blockSize < n then symMerge_func less_fn data a (a + blockSize) n
      else data)"
  by pat_completeness auto
termination
  by (relation "measure (\<lambda>(less_fn, data, n, blockSize, a, b). n + 2 * blockSize - b)") auto

declare stable_merge_blocks.simps [simp del]

function stable_passes :: "'a lessFn \<Rightarrow> 'a list \<Rightarrow> nat \<Rightarrow> nat \<Rightarrow> 'a list" where
  "stable_passes less_fn data n blockSize =
     (if blockSize < n \<and> 0 < blockSize
      then stable_passes less_fn
             (stable_merge_blocks less_fn data n blockSize 0 (2 * blockSize)) n (2 * blockSize)
      else data)"
  by pat_completeness auto
termination
  by (relation "measure (\<lambda>(less_fn, data, n, blockSize). n - blockSize)") auto

declare stable_passes.simps [simp del]

definition stable_func :: "'a lessFn \<Rightarrow> 'a list \<Rightarrow> nat \<Rightarrow> 'a list" where
  "stable_func less_fn data n = stable_passes less_fn (stable_blocks less_fn data n 0 20) n 20"

text \<open>\<^verbatim>\<open>func SliceStable(x any, less func(i, j int) bool)\<close>: \<^verbatim>\<open>stable_func\<close> on the length of \<^verbatim>\<open>x\<close>\<close>

definition sort_SliceStable :: "'a list \<Rightarrow> 'a lessFn \<Rightarrow> 'a list" where
  "sort_SliceStable x less_fn = stable_func less_fn x (length x)"

section \<open>complete\<close>

text \<open>
  \<^verbatim>\<open>
  func complete(prefix string, frequencies map[string]int) []string {
      wordCounts := make([]WordCount, 0)
      for word, count := range frequencies {
          if strings.HasPrefix(word, prefix) {
              wordCounts = append(wordCounts, WordCount{Word: word, Count: count})
          }
      }
      sort.SliceStable(wordCounts, func(i, j int) bool {
          return !(wordCounts[i].Count < wordCounts[j].Count)
      })
      matches := make([]string, len(wordCounts))
      for i := 0; i < len(wordCounts); i++ { matches[i] = wordCounts[i].Word }
      return matches
  }
  \<close>
  A \<^verbatim>\<open>range\<close> over a Go map visits every entry once, in an order the language leaves
  unspecified and the runtime varies from one loop to the next. The order is therefore
  an input of the model: complete takes the entries of \<^verbatim>\<open>frequencies\<close> as the list in
  which this call's \<^verbatim>\<open>range\<close> visits them. \<open>range_of m entries\<close> says that the list is
  such a visit of the map \<open>m\<close>.
\<close>

definition range_of :: "(string \<rightharpoonup> int) \<Rightarrow> (string \<times> int) list \<Rightarrow> bool" where
  "range_of m entries = (distinct (map fst entries) \<and> map_of entries = m)"

text \<open>
  \<^verbatim>\<open>
  func HasPrefix(s, prefix string) bool {
      return len(s) >= len(prefix) && s[:len(prefix)] == prefix
  }
  \<close>
\<close>

definition strings_HasPrefix :: "string \<Rightarrow> string \<Rightarrow> bool" where
  "strings_HasPrefix s prefix =
     (length prefix \<le> length s \<and> take (length prefix) s = prefix)"

fun complete_range :: "string \<Rightarrow> (string \<times> int) list \<Rightarrow> WordCount list \<Rightarrow> WordCount list" where
  "complete_range prefix [] wordCounts = wordCounts"
| "complete_range prefix ((word, cnt) # entries) wordCounts =
     complete_range prefix entries
       (if strings_HasPrefix word prefix
        then wordCounts @ [\<lparr>Word = word, Count = cnt\<rparr>]
        else wordCounts)"

text \<open>The \<^verbatim>\<open>less\<close> closure complete hands to \<^verbatim>\<open>sort.SliceStable\<close>.\<close>

definition byCount :: "WordCount lessFn" where
  "byCount wordCounts i j = (\<not> Count (wordCounts ! i) < Count (wordCounts ! j))"

definition complete :: "string \<Rightarrow> (string \<times> int) list \<Rightarrow> string list" where
  "complete prefix frequencies =
     (let wordCounts = complete_range prefix frequencies [];
          wordCounts = sort_SliceStable wordCounts byCount;
          matches = map Word wordCounts
      in matches)"

section \<open>firstN\<close>

text \<open>
  \<^verbatim>\<open>
  func firstN(words []string, n int) []string {
      if n < len(words) { return words[:n] }
      return words
  }
  \<close>
  The slice expression \<^verbatim>\<open>words[:n]\<close> panics when \<^verbatim>\<open>n < 0\<close> or \<^verbatim>\<open>n > cap(words)\<close>; under
  the guard \<^verbatim>\<open>n < len(words)\<close> only the first can happen.
\<close>

definition firstN :: "string list \<Rightarrow> int \<Rightarrow> panic + string list" where
  "firstN words n =
     (if n < int (length words)
      then (if n < 0 then Inl SliceBoundsOutOfRange else Inr (take (nat n) words))
      else Inr words)"

section \<open>respond\<close>

text \<open>
  \<^verbatim>\<open>
  func respond(w http.ResponseWriter, r *http.Request) {
      url, err := url.Parse(r.RequestURI)
      if err != nil { panic(err) }
      term := r.URL.Query().Get("term")
      supportedMethod := r.Method == "GET"
      validEndpoint := url.Path == "/autocomplete"
      includedTerm := term != ""
      validRequest := supportedMethod && validEndpoint && includedTerm
      w.Header().Set("Content-Type", "application/json")
      if validRequest {
          matches := complete(term, countMap)
          top25 := firstN(matches, 25)
          top25json, error := json.Marshal(top25)
          if error != nil {
              w.WriteHeader(http.StatusInternalServerError)
              w.Write([]byte(`{"message": "Internal service error"}`))
          } else {
              w.WriteHeader(http.StatusOK)
              w.Write([]byte(`{"matches":` + string(top25json) + `}`))
          }
      } else {
          w.WriteHeader(http.StatusBadRequest)
          w.Write([]byte(`{"message": "Unsupported request"}`))
      }
  }
  \<close>
  The request is what the handler reads of it: the method, the outcome of
  \<^verbatim>\<open>url.Parse(r.RequestURI)\<close> (the parse error, or the path of the parsed URL) and the
  value of the query parameter \<^verbatim>\<open>term\<close> in \<^verbatim>\<open>r.URL\<close>, which the server parsed on its own
  with \<^verbatim>\<open>url.ParseRequestURI\<close>. The two parsers are not the same: \<^verbatim>\<open>url.Parse\<close> cuts the
  text after the first # off as a fragment and rejects the URL when the fragment has a
  malformed percent escape, and \<^verbatim>\<open>url.ParseRequestURI\<close> knows no fragment. The server
  hands the request line \<^verbatim>\<open>GET /autocomplete?term=a#%zz HTTP/1.1\<close> to the handler, with
  the path /autocomplete and, the value of term being malformed, the empty term; the
  handler's \<^verbatim>\<open>url.Parse\<close> of the same request URI returns an error.

  The response is the status, the content type and the body written. A panic leaves
  the handler before it has written anything.
\<close>

record Request =
  Method :: string
  RequestURI_parsed :: "panic + string"
  URL_Query_term :: string

record Response =
  status :: nat
  contentType :: string
  body :: string

text \<open>
  \<^verbatim>\<open>json.Marshal\<close> of a \<^verbatim>\<open>[]string\<close> that is not nil (firstN never returns nil here): the
  elements as JSON strings, separated by commas, in brackets. It returns no error for
  such a value. How one string is written as a JSON string (quotes and escapes) is the
  parameter \<open>jsonString\<close>; a token of letters a to z is written between double quotes
  as it is.
\<close>

datatype marshal_error = UnsupportedValue

fun json_elements :: "string list \<Rightarrow> string" where
  "json_elements [] = ''''"
| "json_elements [x] = x"
| "json_elements (x # y # ys) = x @ '','' @ json_elements (y # ys)"

definition json_Marshal :: "(string \<Rightarrow> string) \<Rightarrow> string list \<Rightarrow> marshal_error + string" where
  "json_Marshal jsonString v = Inr (''['' @ json_elements (map jsonString v) @ '']'')"

definition unsupportedRequest :: Response where
  "unsupportedRequest =
     \<lparr>status = 400, contentType = ''application/json'',
      body = ''{\"message\": \"Unsupported request\"}''\<rparr>"

definition internalServiceError :: Response where
  "internalServiceError =
     \<lparr>status = 500, contentType = ''application/json'',
      body = ''{\"message\": \"Internal service error\"}''\<rparr>"

definition matchesResponse :: "string \<Rightarrow> Response" where
  "matchesResponse top25json =
     \<lparr>status = 200, contentType = ''application/json'',
      body = ''{\"matches\":'' @ top25json @ ''}''\<rparr>"

definition respond ::
  "(string \<Rightarrow> string) \<Rightarrow> (string \<times> int) list \<Rightarrow> Request \<Rightarrow> panic + Response" where
  "respond jsonString countMap r =
     (case RequestURI_parsed r of
        Inl err \<Rightarrow> Inl err
      | Inr path \<Rightarrow>
          (let searchTerm = URL_Query_term r;
               supportedMethod = (Method r = ''GET'');
               validEndpoint = (path = ''/autocomplete'');
               includedTerm = (searchTerm \<noteq> '''');
               validRequest = (supportedMethod \<and> validEndpoint \<and> includedTerm)
           in if validRequest then
                (let matches = complete searchTerm countMap
                 in case firstN matches 25 of
                      Inl p \<Rightarrow> Inl p
                    | Inr top25 \<Rightarrow>
                        (case json_Marshal jsonString top25 of
                           Inl e \<Rightarrow> Inr internalServiceError
                         | Inr top25json \<Rightarrow> Inr (matchesResponse top25json)))
              else Inr unsupportedRequest))"

section \<open>Predicates of the proofs\<close>

text \<open>A list of candidates in descending order of count.\<close>

definition desc :: "WordCount list \<Rightarrow> bool" where
  "desc xs = sorted_wrt (\<lambda>x y. Count y \<le> Count x) xs"

text \<open>Every block of \<open>bs\<close> candidates, and the shorter last one, is in descending order.\<close>

function chunks_desc :: "nat \<Rightarrow> WordCount list \<Rightarrow> bool" where
  "chunks_desc bs xs =
     (if bs = 0 \<or> length xs \<le> bs then desc xs
      else desc (take bs xs) \<and> chunks_desc bs (drop bs xs))"
  by pat_completeness auto
termination
  by (relation "measure (\<lambda>(bs, xs). length xs)") auto

declare chunks_desc.simps [simp del]

section \<open>Properties of countWords\<close>

text \<open>
  A Go slice has at most \<open>2 ^ 63 - 1\<close> elements (its length is an \<^verbatim>\<open>int\<close>), so the
  hypothesis \<open>int (length words) < 2 ^ 63\<close> below holds of every call; under it no
  \<^verbatim>\<open>count + 1\<close> wraps around.
\<close>

lemma wrap64_id: "- (2 ^ 63) \<le> x \<Longrightarrow> x < 2 ^ 63 \<Longrightarrow> wrap64 x = x"
  by (simp add: wrap64_def)

lemma countWords_body_bound:
  assumes "\<And>w c. m w = Some c \<Longrightarrow> 0 < c \<and> c + int (length (v # ws)) < 2 ^ 63"
    and "int (length (v # ws)) < 2 ^ 63"
    and "countWords_body m v u = Some c"
  shows "0 < c \<and> c + int (length ws) < 2 ^ 63"
proof (cases "u = v")
  case False
  with assms(3) have "m u = Some c"
    by (simp add: countWords_body_def split: option.splits)
  from assms(1) [OF this] show ?thesis by simp
next
  case True
  show ?thesis
  proof (cases "m v")
    case None
    with assms(3) True have "c = 1" by (simp add: countWords_body_def)
    with assms(2) show ?thesis by simp
  next
    case (Some c0)
    from assms(1) [OF Some] have b: "0 < c0" "c0 + int (length (v # ws)) < 2 ^ 63"
      by auto
    then have "wrap64 (c0 + 1) = c0 + 1" by (intro wrap64_id) auto
    with assms(3) True Some have "c = c0 + 1" by (simp add: countWords_body_def)
    with b show ?thesis by simp
  qed
qed

lemma countWords_body_value:
  assumes "\<And>w c. m w = Some c \<Longrightarrow> 0 < c \<and> c + int (length (v # ws)) < 2 ^ 63"
  shows "countWords_body m v u =
           (if u = v then (case m v of Some c \<Rightarrow> Some (c + 1) | None \<Rightarrow> Some 1) else m u)"
proof (cases "m v")
  case None
  then show ?thesis by (simp add: countWords_body_def)
next
  case (Some c0)
  from assms [OF Some] have "wrap64 (c0 + 1) = c0 + 1" by (intro wrap64_id) auto
  with Some show ?thesis by (simp add: countWords_body_def)
qed

lemma countWords_loop_exact:
  assumes "\<And>w c. m w = Some c \<Longrightarrow> 0 < c \<and> c + int (length ws) < 2 ^ 63"
    and "int (length ws) < 2 ^ 63"
  shows "countWords_loop m ws w =
           (case m w of
              Some c \<Rightarrow> Some (c + int (count_list ws w))
            | None \<Rightarrow> if w \<in> set ws then Some (int (count_list ws w)) else None)"
  using assms
proof (induction ws arbitrary: m)
  case Nil
  then show ?case by (simp split: option.splits)
next
  case (Cons v ws)
  let ?m' = "countWords_body m v"
  have step: "\<And>u c. ?m' u = Some c \<Longrightarrow> 0 < c \<and> c + int (length ws) < 2 ^ 63"
    using countWords_body_bound [of m v ws] Cons.prems by blast
  have len: "int (length ws) < 2 ^ 63" using Cons.prems(2) by simp
  have val: "?m' w = (if w = v then (case m v of Some c \<Rightarrow> Some (c + 1) | None \<Rightarrow> Some 1) else m w)"
    using countWords_body_value [of m v ws] Cons.prems(1) by blast
  have "countWords_loop m (v # ws) w = countWords_loop ?m' ws w" by simp
  also have "\<dots> = (case ?m' w of
              Some c \<Rightarrow> Some (c + int (count_list ws w))
            | None \<Rightarrow> if w \<in> set ws then Some (int (count_list ws w)) else None)"
  proof (rule Cons.IH)
    show "\<And>u c. ?m' u = Some c \<Longrightarrow> 0 < c \<and> c + int (length ws) < 2 ^ 63" by (rule step)
    show "int (length ws) < 2 ^ 63" by (rule len)
  qed
  also have "\<dots> = (case m w of
              Some c \<Rightarrow> Some (c + int (count_list (v # ws) w))
            | None \<Rightarrow> if w \<in> set (v # ws) then Some (int (count_list (v # ws) w)) else None)"
    by (simp add: val count_list_0_iff split: option.splits)
  finally show ?case .
qed

lemma countWords_exact:
  assumes "int (length words) < 2 ^ 63"
  shows "countWords words w = (if w \<in> set words then Some (int (count_list words w)) else None)"
  using countWords_loop_exact [of Map.empty words w] assms
  by (simp add: countWords_def)

lemma dom_countWords:
  assumes "int (length words) < 2 ^ 63"
  shows "dom (countWords words) = set words"
  using countWords_exact [OF assms] by (auto simp: dom_def split: if_splits)

lemma countWords_loop_append:
  "countWords_loop m (xs @ ys) = countWords_loop (countWords_loop m xs) ys"
  by (induction xs arbitrary: m) simp_all

text \<open>
  C7. For every token list, countWords maps each token of the list to its exact number
  of occurrences, has no entry for a token that does not occur, and the counts sum to
  the length of the list; for a, b, a, c, a the result is a:3, b:1, c:1.
\<close>

theorem countWords_counts:
  assumes "int (length words) < 2 ^ 63"
  shows "(\<forall>w. countWords words w =
            (if w \<in> set words then Some (int (count_list words w)) else None))
       \<and> (\<forall>w. w \<notin> set words \<longrightarrow> w \<notin> dom (countWords words))
       \<and> (\<Sum>w\<in>dom (countWords words). the (countWords words w)) = int (length words)
       \<and> countWords [''a'', ''b'', ''a'', ''c'', ''a''] = [''a'' \<mapsto> 3, ''b'' \<mapsto> 1, ''c'' \<mapsto> 1]"
proof -
  have ex: "\<And>w. countWords words w =
            (if w \<in> set words then Some (int (count_list words w)) else None)"
    using countWords_exact [OF assms] by blast
  have d: "dom (countWords words) = set words" by (rule dom_countWords [OF assms])
  have "(\<Sum>w\<in>set words. the (countWords words w)) = (\<Sum>w\<in>set words. int (count_list words w))"
    by (rule sum.cong) (simp_all add: ex)
  also have "\<dots> = int (\<Sum>w\<in>set words. count_list words w)" by simp
  also have "\<dots> = int (length words)"
    by (simp add: sum_count_set)
  finally have s: "(\<Sum>w\<in>dom (countWords words). the (countWords words w)) = int (length words)"
    using d by simp
  have e: "countWords [''a'', ''b'', ''a'', ''c'', ''a''] = [''a'' \<mapsto> 3, ''b'' \<mapsto> 1, ''c'' \<mapsto> 1]"
    by (rule ext) (simp add: countWords_def countWords_body_def wrap64_def)
  from ex d s e show ?thesis by auto
qed

theorem countWords_counts_witness:
  "int (length [''x'', ''y'', ''x'']) < 2 ^ 63
   \<and> countWords [''x'', ''y'', ''x''] ''x'' = Some 2
   \<and> countWords [''x'', ''y'', ''x''] ''z'' = None
   \<and> (\<Sum>w\<in>dom (countWords [''x'', ''y'', ''x'']). the (countWords [''x'', ''y'', ''x''] w)) = 3"
proof -
  have h: "int (length [''x'', ''y'', ''x'']) < 2 ^ 63" by simp
  from countWords_counts [OF h] have
    "\<forall>w. countWords [''x'', ''y'', ''x''] w =
            (if w \<in> set [''x'', ''y'', ''x''] then Some (int (count_list [''x'', ''y'', ''x''] w)) else None)"
    and s: "(\<Sum>w\<in>dom (countWords [''x'', ''y'', ''x'']). the (countWords [''x'', ''y'', ''x''] w))
              = int (length [''x'', ''y'', ''x''])"
    by blast+
  then have "countWords [''x'', ''y'', ''x''] ''x'' = Some 2"
    and "countWords [''x'', ''y'', ''x''] ''z'' = None"
    by simp_all
  with h s show ?thesis by simp
qed

text \<open>
  C8. Every key of the map returned by countWords maps to a count of at least 1, and
  so does every key of every intermediate state of the loop: the state after the words
  \<open>seen\<close> is \<open>countWords_loop Map.empty seen\<close>, the loop continues from it to the
  final result, and one iteration either initialises the word's count to 1 or
  increments it, leaving every other entry as it is.
\<close>

theorem countWords_positive:
  assumes "int (length words) < 2 ^ 63" and "words = seen @ rest"
  shows "countWords words = countWords_loop (countWords_loop Map.empty seen) rest
       \<and> (\<forall>w c. countWords_loop Map.empty seen w = Some c \<longrightarrow> 1 \<le> c)
       \<and> (\<forall>w c. countWords words w = Some c \<longrightarrow> 1 \<le> c)
       \<and> (\<forall>v rest'. rest = v # rest' \<longrightarrow>
            countWords_body (countWords_loop Map.empty seen) v =
              (countWords_loop Map.empty seen)
                (v \<mapsto> (case countWords_loop Map.empty seen v of None \<Rightarrow> 1 | Some c \<Rightarrow> c + 1)))"
proof -
  let ?st = "countWords_loop Map.empty seen"
  have len: "int (length seen) < 2 ^ 63" using assms by simp
  have st: "\<And>w. ?st w = (if w \<in> set seen then Some (int (count_list seen w)) else None)"
    using countWords_exact [OF len] by (simp add: countWords_def)
  have pos_st: "\<And>w c. ?st w = Some c \<Longrightarrow> 1 \<le> c"
  proof -
    fix w c assume "?st w = Some c"
    with st [of w] have "w \<in> set seen" and "c = int (count_list seen w)"
      by (auto split: if_splits)
    then show "1 \<le> c" using count_list_0_iff [of seen w] by auto
  qed
  have pos: "\<And>w c. countWords words w = Some c \<Longrightarrow> 1 \<le> c"
  proof -
    fix w c assume "countWords words w = Some c"
    with countWords_exact [OF assms(1), of w] have "w \<in> set words" and "c = int (count_list words w)"
      by (auto split: if_splits)
    then show "1 \<le> c" using count_list_0_iff [of words w] by auto
  qed
  have body: "\<And>v rest'. rest = v # rest' \<Longrightarrow>
      countWords_body ?st v = ?st (v \<mapsto> (case ?st v of None \<Rightarrow> 1 | Some c \<Rightarrow> c + 1))"
  proof -
    fix v rest' assume r: "rest = v # rest'"
    have bound: "\<And>w c. ?st w = Some c \<Longrightarrow> 0 < c \<and> c + int (length (v # rest')) < 2 ^ 63"
    proof -
      fix w c assume h: "?st w = Some c"
      with st [of w] have "c = int (count_list seen w)" by (auto split: if_splits)
      moreover have "count_list seen w \<le> length seen" by (rule count_le_length)
      ultimately have "c + int (length (v # rest')) \<le> int (length words)"
        using assms(2) r by simp
      with pos_st [OF h] assms(1) show "0 < c \<and> c + int (length (v # rest')) < 2 ^ 63" by simp
    qed
    show "countWords_body ?st v = ?st (v \<mapsto> (case ?st v of None \<Rightarrow> 1 | Some c \<Rightarrow> c + 1))"
      by (rule ext) (simp add: countWords_body_value [of ?st v rest', OF bound] split: option.splits)
  qed
  have "countWords words = countWords_loop ?st rest"
    by (simp add: countWords_def assms(2) countWords_loop_append)
  with pos_st pos body show ?thesis by blast
qed

theorem countWords_positive_witness:
  "int (length [''x'', ''y'', ''x'']) < 2 ^ 63
   \<and> [''x'', ''y'', ''x''] = [''x'', ''y''] @ [''x'']
   \<and> countWords [''x'', ''y'', ''x''] = countWords_loop (countWords_loop Map.empty [''x'', ''y'']) [''x'']
   \<and> (\<exists>c. countWords_loop Map.empty [''x'', ''y''] ''x'' = Some c \<and> 1 \<le> c)
   \<and> (\<exists>c. countWords [''x'', ''y'', ''x''] ''x'' = Some c \<and> 1 \<le> c)"
proof -
  have h: "int (length [''x'', ''y'', ''x'']) < 2 ^ 63" by simp
  have e: "[''x'', ''y'', ''x''] = [''x'', ''y''] @ [''x'']" by simp
  have v1: "countWords_loop Map.empty [''x'', ''y''] ''x'' = Some 1"
    by (simp add: countWords_body_def)
  have v2: "countWords [''x'', ''y'', ''x''] ''x'' = Some 2"
    by (simp add: countWords_def countWords_body_def wrap64_def)
  from countWords_positive [OF h e] v1 v2 h e show ?thesis by blast
qed

section \<open>Properties of firstN\<close>

text \<open>
  C6. For every list of matches and every limit \<open>n \<ge> 0\<close>, firstN returns the first
  \<open>n\<close> matches: the result has length \<open>min (length words) n\<close>, which is at most \<open>n\<close>;
  it is empty for \<open>n = 0\<close>; and it is the whole list, unchanged, when the list has at
  most \<open>n\<close> elements.
\<close>

theorem firstN_truncates:
  assumes "0 \<le> n"
  shows "\<exists>r. firstN words n = Inr r
            \<and> r = take (nat n) words
            \<and> length r = min (length words) (nat n)
            \<and> int (length r) \<le> n
            \<and> (n = 0 \<longrightarrow> r = [])
            \<and> (int (length words) \<le> n \<longrightarrow> r = words)"
  using assms by (auto simp: firstN_def)

theorem firstN_truncates_witness:
  "(0::int) \<le> 2 \<and> firstN [''x'', ''y'', ''z''] 2 = Inr [''x'', ''y'']"
proof -
  have h: "(0::int) \<le> 2" by simp
  from firstN_truncates [OF h, of "[''x'', ''y'', ''z'']"]
  obtain r where "firstN [''x'', ''y'', ''z''] 2 = Inr r" and "r = take (nat 2) [''x'', ''y'', ''z'']"
    by blast
  then have "firstN [''x'', ''y'', ''z''] 2 = Inr [''x'', ''y'']" by (simp add: numeral_2_eq_2)
  with h show ?thesis by simp
qed

text \<open>
  C10. For every list and every \<open>n \<ge> 0\<close> firstN returns normally: where it takes the
  slice \<^verbatim>\<open>words[:n]\<close> the bound satisfies \<open>0 \<le> n < length words\<close>. The precondition is
  necessary: for every negative \<open>n\<close> the slice expression panics, whatever the list.
\<close>

theorem firstN_safe:
  "(0 \<le> n \<longrightarrow> (\<exists>r. firstN words n = Inr r))
   \<and> (0 \<le> n \<and> n < int (length words)
        \<longrightarrow> nat n < length words \<and> firstN words n = Inr (take (nat n) words))
   \<and> (n < 0 \<longrightarrow> firstN words n = Inl SliceBoundsOutOfRange)"
  by (auto simp: firstN_def)

theorem firstN_safe_witness:
  "((0::int) \<le> 1 \<and> (\<exists>r. firstN [''x'', ''y''] 1 = Inr r))
   \<and> ((-1::int) < 0 \<and> firstN [''x'', ''y''] (-1) = Inl SliceBoundsOutOfRange)"
  using firstN_safe [of 1 "[''x'', ''y'']"] firstN_safe [of "-1" "[''x'', ''y'']"]
  by simp

section \<open>Properties of sort.SliceStable under byCount\<close>

text \<open>
  The slice is written as the part before the range a function works on, the range
  and the part after it; every function returns the slice with the range rearranged
  and the rest as it was.
\<close>

lemma swap_adjacent:
  "swap (pre @ x # y # post) (length pre) (Suc (length pre)) = pre @ y # x # post"
  by (simp add: swap_def list_update_append nth_append)

lemma swap_adjacent':
  "swap (pre @ x # y # post) (Suc (length pre)) (length pre) = pre @ y # x # post"
  by (simp add: swap_def list_update_append nth_append)

lemma swap_up_shift:
  "swap_up (pre @ x # mid @ post) (length pre) (length pre + length mid) = pre @ mid @ x # post"
proof (induction mid arbitrary: pre)
  case Nil
  show ?case by (subst swap_up.simps) simp
next
  case (Cons y mid)
  have "swap_up (pre @ x # (y # mid) @ post) (length pre) (length pre + length (y # mid))
        = swap_up (swap (pre @ x # y # mid @ post) (length pre) (length pre + 1))
            (length pre + 1) (length pre + length (y # mid))"
    by (subst swap_up.simps) simp
  also have "\<dots> = swap_up ((pre @ [y]) @ x # mid @ post) (length (pre @ [y]))
                        (length (pre @ [y]) + length mid)"
    by (simp add: swap_adjacent)
  also have "\<dots> = (pre @ [y]) @ mid @ x # post" by (rule Cons.IH)
  finally show ?case by simp
qed

lemma swap_down_shift:
  "swap_down (pre @ mid @ x # post) (length pre + length mid) (length pre) = pre @ x # mid @ post"
proof (induction mid arbitrary: post rule: rev_induct)
  case Nil
  show ?case by (subst swap_down.simps) simp
next
  case (snoc y mid)
  have "swap_down (pre @ (mid @ [y]) @ x # post) (length pre + length (mid @ [y])) (length pre)
        = swap_down (swap ((pre @ mid) @ y # x # post) (Suc (length (pre @ mid))) (length (pre @ mid)))
            (length pre + length mid) (length pre)"
    by (subst swap_down.simps) simp
  also have "\<dots> = swap_down (pre @ mid @ x # y # post) (length pre + length mid) (length pre)"
    by (simp only: swap_adjacent') simp
  also have "\<dots> = pre @ x # mid @ y # post" by (rule snoc.IH)
  finally show ?case by simp
qed

lemma swap_apart:
  "swap (pre @ x # mid @ y # post) (length pre) (Suc (length pre + length mid))
     = pre @ y # mid @ x # post"
  by (simp add: swap_def list_update_append nth_append)

lemma swapRange_loop_blocks:
  assumes "length X = length Y"
    and "a + i = length pre"
    and "b + i = length pre + length X + length mid"
    and "n = i + length X"
  shows "swapRange_loop (pre @ X @ mid @ Y @ post) a b n i = pre @ Y @ mid @ X @ post"
  using assms
proof (induction X Y arbitrary: pre mid i rule: list_induct2)
  case Nil
  then show ?case by (subst swapRange_loop.simps) simp
next
  case (Cons x X y Y)
  have ai: "a + i = length pre" and bi: "b + i = Suc (length pre + length (X @ mid))"
    using Cons.prems by simp_all
  have "swapRange_loop (pre @ (x # X) @ mid @ (y # Y) @ post) a b n i
        = swapRange_loop (swap (pre @ x # (X @ mid) @ y # Y @ post) (a + i) (b + i)) a b n (i + 1)"
    using Cons.prems by (subst swapRange_loop.simps) simp
  also have "swap (pre @ x # (X @ mid) @ y # Y @ post) (a + i) (b + i)
             = pre @ y # (X @ mid) @ x # Y @ post"
    unfolding ai bi by (rule swap_apart)
  also have "swapRange_loop (pre @ y # (X @ mid) @ x # Y @ post) a b n (i + 1)
             = swapRange_loop ((pre @ [y]) @ X @ (mid @ [x]) @ Y @ post) a b n (i + 1)"
    by simp
  also have "\<dots> = (pre @ [y]) @ Y @ (mid @ [x]) @ X @ post"
    by (rule Cons.IH) (use Cons.prems in simp_all)
  finally show ?case by simp
qed

lemma swapRange_func_blocks:
  assumes "length X = length Y" and "a = length pre" and "b = length pre + length X + length mid"
    and "n = length X"
  shows "swapRange_func (pre @ X @ mid @ Y @ post) a b n = pre @ Y @ mid @ X @ post"
  unfolding swapRange_func_def
  by (rule swapRange_loop_blocks) (use assms in simp_all)

lemma rotate_loop_blocks:
  assumes "length U = i" and "length V = j" and "0 < i" and "0 < j" and "length pre + i = m"
  shows "rotate_loop (pre @ U @ V @ post) m i j = pre @ V @ U @ post"
  using assms
proof (induction "i + j" arbitrary: i j U V pre post rule: less_induct)
  case less
  show ?case
  proof (cases "i = j")
    case True
    have "swapRange_func (pre @ U @ [] @ V @ post) (m - i) m i = pre @ V @ [] @ U @ post"
      by (rule swapRange_func_blocks) (use less.prems True in auto)
    then show ?thesis using True by (subst rotate_loop.simps) simp
  next
    case False
    show ?thesis
    proof (cases "j < i")
      case True
      define U1 where "U1 = take j U"
      define U2 where "U2 = drop j U"
      have U: "U = U1 @ U2" and l1: "length U1 = j" and l2: "length U2 = i - j"
        using less.prems True by (simp_all add: U1_def U2_def)
      have "swapRange_func (pre @ U1 @ U2 @ V @ post) (m - i) m j = pre @ V @ U2 @ U1 @ post"
        by (rule swapRange_func_blocks) (use less.prems True l1 l2 in auto)
      then have "rotate_loop (pre @ U @ V @ post) m i j
                 = rotate_loop ((pre @ V) @ U2 @ U1 @ post) m (i - j) j"
        using True False less.prems U by (subst rotate_loop.simps) simp
      also have "\<dots> = (pre @ V) @ U1 @ U2 @ post"
        by (rule less.hyps) (use less.prems True l1 l2 in auto)
      finally show ?thesis using U by simp
    next
      case F2: False
      with False have lt: "i < j" by simp
      define V1 where "V1 = take (j - i) V"
      define V2 where "V2 = drop (j - i) V"
      have V: "V = V1 @ V2" and l1: "length V1 = j - i" and l2: "length V2 = i"
        using less.prems lt by (simp_all add: V1_def V2_def)
      have "swapRange_func (pre @ U @ V1 @ V2 @ post) (m - i) (m + j - i) i
            = pre @ V2 @ V1 @ U @ post"
        by (rule swapRange_func_blocks) (use less.prems lt l1 l2 in auto)
      then have "rotate_loop (pre @ U @ V @ post) m i j
                 = rotate_loop (pre @ V2 @ V1 @ (U @ post)) m i (j - i)"
        using F2 False less.prems V by (subst rotate_loop.simps) simp
      also have "\<dots> = pre @ V1 @ V2 @ (U @ post)"
        by (rule less.hyps) (use less.prems lt l1 l2 in auto)
      finally show ?thesis using V by simp
    qed
  qed
qed

lemma rotate_func_blocks:
  assumes "U \<noteq> []" and "V \<noteq> []" and "a = length pre" and "m = a + length U"
    and "b = m + length V"
  shows "rotate_func (pre @ U @ V @ post) a m b = pre @ V @ U @ post"
  unfolding rotate_func_def
  by (rule rotate_loop_blocks) (use assms in auto)

lemma symMerge_search_bounds:
  assumes "i \<le> j"
  shows "i \<le> symMerge_search P i j \<and> symMerge_search P i j \<le> j
         \<and> (i < symMerge_search P i j \<longrightarrow> P (symMerge_search P i j - 1))
         \<and> (symMerge_search P i j < j \<longrightarrow> \<not> P (symMerge_search P i j))"
  using assms
proof (induction P i j rule: symMerge_search.induct)
  case (1 P i j)
  show ?case
  proof (cases "i < j")
    case False
    then have "symMerge_search P i j = i" by (subst symMerge_search.simps) simp
    then show ?thesis using False "1.prems" by simp
  next
    case True
    define h where "h = (i + j) div 2"
    have hb: "i \<le> h" "h < j" using True by (simp_all add: h_def)
    show ?thesis
    proof (cases "P h")
      case Ph: True
      have eq: "symMerge_search P i j = symMerge_search P (h + 1) j"
        using True Ph by (subst symMerge_search.simps) (simp add: h_def Let_def)
      from "1.IH"(1) [OF True h_def Ph] hb
      have ih: "h + 1 \<le> symMerge_search P (h + 1) j \<and> symMerge_search P (h + 1) j \<le> j
         \<and> (h + 1 < symMerge_search P (h + 1) j \<longrightarrow> P (symMerge_search P (h + 1) j - 1))
         \<and> (symMerge_search P (h + 1) j < j \<longrightarrow> \<not> P (symMerge_search P (h + 1) j))"
        by simp
      show ?thesis
      proof (cases "symMerge_search P (h + 1) j = h + 1")
        case True
        with ih Ph hb show ?thesis unfolding eq by simp
      next
        case False
        with ih hb show ?thesis unfolding eq by auto
      qed
    next
      case nPh: False
      have eq: "symMerge_search P i j = symMerge_search P i h"
        using True nPh by (subst symMerge_search.simps) (simp add: h_def Let_def)
      from "1.IH"(2) [OF True h_def nPh] hb
      have ih: "i \<le> symMerge_search P i h \<and> symMerge_search P i h \<le> h
         \<and> (i < symMerge_search P i h \<longrightarrow> P (symMerge_search P i h - 1))
         \<and> (symMerge_search P i h < h \<longrightarrow> \<not> P (symMerge_search P i h))"
        by simp
      show ?thesis
      proof (cases "symMerge_search P i h = h")
        case True
        with ih nPh hb show ?thesis unfolding eq by simp
      next
        case False
        with ih hb show ?thesis unfolding eq by auto
      qed
    qed
  qed
qed

lemma desc_append:
  "desc (xs @ ys) \<longleftrightarrow> desc xs \<and> desc ys \<and> (\<forall>x\<in>set xs. \<forall>y\<in>set ys. Count y \<le> Count x)"
  by (simp add: desc_def sorted_wrt_append)

lemma desc_Nil [simp]: "desc []" by (simp add: desc_def)
lemma desc_single [simp]: "desc [x]" by (simp add: desc_def)

lemma desc_Cons: "desc (x # xs) \<longleftrightarrow> (\<forall>y\<in>set xs. Count y \<le> Count x) \<and> desc xs"
  by (simp add: desc_def)

lemma insertionSort_inner_sorted:
  assumes "desc S"
  shows "\<exists>S'. insertionSort_inner byCount (pre @ S @ x # post) (length pre) (length pre + length S)
                 = pre @ S' @ post
              \<and> mset S' = add_mset x (mset S) \<and> desc S'"
  using assms
proof (induction S arbitrary: post rule: rev_induct)
  case Nil
  have "insertionSort_inner byCount (pre @ [] @ x # post) (length pre) (length pre + length ([]::WordCount list))
        = pre @ [x] @ post"
    by (subst insertionSort_inner.simps) simp
  then show ?case by (intro exI [of _ "[x]"]) simp
next
  case (snoc y S)
  let ?data = "pre @ (S @ [y]) @ x # post"
  let ?j = "length pre + length (S @ [y])"
  have dS: "desc S" and ge: "\<forall>s\<in>set S. Count y \<le> Count s"
    using snoc.prems by (simp_all add: desc_append)
  have nj: "?data ! ?j = x" by (simp add: nth_append)
  have nj1: "?data ! (?j - 1) = y" by (simp add: nth_append)
  show ?case
  proof (cases "Count x < Count y")
    case True
    have "insertionSort_inner byCount ?data (length pre) ?j = pre @ (S @ [y, x]) @ post"
      using True nj nj1 by (subst insertionSort_inner.simps) (simp add: byCount_def)
    moreover have "desc (S @ [y, x])"
      using dS ge True by (auto simp: desc_append desc_Cons)
    ultimately show ?thesis by (intro exI [of _ "S @ [y, x]"]) simp
  next
    case False
    have sw: "swap (pre @ S @ y # x # post) (Suc (length pre + length S)) (length pre + length S)
              = pre @ S @ x # y # post"
      using swap_adjacent' [of "pre @ S" y x post] by simp
    have "insertionSort_inner byCount ?data (length pre) ?j
          = insertionSort_inner byCount (pre @ S @ x # (y # post)) (length pre) (length pre + length S)"
      using False nj nj1 by (subst insertionSort_inner.simps) (simp add: byCount_def sw)
    moreover from snoc.IH [OF dS, of "y # post"] obtain S0 where
      "insertionSort_inner byCount (pre @ S @ x # (y # post)) (length pre) (length pre + length S)
         = pre @ S0 @ y # post"
      and m: "mset S0 = add_mset x (mset S)" and d: "desc S0"
      by blast
    ultimately have r: "insertionSort_inner byCount ?data (length pre) ?j = pre @ (S0 @ [y]) @ post"
      by simp
    have "set S0 = insert x (set S)" using m by (metis set_mset_add_mset_insert set_mset_mset)
    with d ge False have "desc (S0 @ [y])" by (auto simp: desc_append)
    with r m show ?thesis by (intro exI [of _ "S0 @ [y]"]) simp
  qed
qed

lemma insertionSort_outer_sorted:
  assumes "desc S"
  shows "\<exists>S'. insertionSort_outer byCount (pre @ S @ T @ post) (length pre)
                 (length pre + length S + length T) (length pre + length S)
                 = pre @ S' @ post
              \<and> mset S' = mset S + mset T \<and> desc S'"
  using assms
proof (induction T arbitrary: S)
  case Nil
  have "insertionSort_outer byCount (pre @ S @ [] @ post) (length pre)
          (length pre + length S + length ([]::WordCount list)) (length pre + length S)
        = pre @ S @ post"
    by (subst insertionSort_outer.simps) simp
  with Nil show ?case by (intro exI [of _ S]) simp
next
  case (Cons t T)
  from insertionSort_inner_sorted [OF Cons.prems, of pre t "T @ post"] obtain S1 where
    in1: "insertionSort_inner byCount (pre @ S @ t # T @ post) (length pre) (length pre + length S)
         = pre @ S1 @ T @ post"
    and m1: "mset S1 = add_mset t (mset S)" and d1: "desc S1"
    by auto
  from m1 have l1: "length S1 = Suc (length S)" by (metis size_mset size_add_mset)
  have "insertionSort_outer byCount (pre @ S @ (t # T) @ post) (length pre)
          (length pre + length S + length (t # T)) (length pre + length S)
        = insertionSort_outer byCount (pre @ S1 @ T @ post) (length pre)
          (length pre + length S1 + length T) (length pre + length S1)"
    using in1 l1 by (subst insertionSort_outer.simps) simp
  moreover from Cons.IH [OF d1] obtain S' where
    "insertionSort_outer byCount (pre @ S1 @ T @ post) (length pre)
          (length pre + length S1 + length T) (length pre + length S1) = pre @ S' @ post"
    and "mset S' = mset S1 + mset T" and "desc S'"
    by blast
  ultimately show ?case using m1 by (intro exI [of _ S']) simp
qed

lemma insertionSort_func_sorted:
  "\<exists>S'. insertionSort_func byCount (pre @ seg @ post) (length pre) (length pre + length seg)
          = pre @ S' @ post
        \<and> mset S' = mset seg \<and> desc S'"
proof (cases seg)
  case Nil
  have "insertionSort_outer byCount (pre @ post) (length pre) (length pre) (length pre + 1)
        = pre @ post"
    by (subst insertionSort_outer.simps) simp
  with Nil show ?thesis by (intro exI [of _ "[]"]) (simp add: insertionSort_func_def)
next
  case (Cons x T)
  from insertionSort_outer_sorted [of "[x]" pre T post] obtain S' where
    "insertionSort_outer byCount (pre @ [x] @ T @ post) (length pre)
                 (length pre + length [x] + length T) (length pre + length [x]) = pre @ S' @ post"
    and "mset S' = mset [x] + mset T" and "desc S'"
    by auto
  with Cons show ?thesis by (intro exI [of _ S']) (simp add: insertionSort_func_def)
qed

lemma desc_nth_le:
  assumes "desc X" and "i \<le> j" and "j < length X"
  shows "Count (X ! j) \<le> Count (X ! i)"
proof (cases "i = j")
  case True
  then show ?thesis by simp
next
  case False
  with assms have "i < j" by simp
  with assms sorted_wrt_nth_less [of "\<lambda>x y. Count y \<le> Count x" X i j]
  show ?thesis by (simp add: desc_def)
qed

lemma desc_take: "desc X \<Longrightarrow> desc (take k X)"
  using desc_append [of "take k X" "drop k X"] by simp

lemma desc_drop: "desc X \<Longrightarrow> desc (drop k X)"
  using desc_append [of "take k X" "drop k X"] by simp

lemma desc_take_drop_le:
  "desc X \<Longrightarrow> x \<in> set (take k X) \<Longrightarrow> y \<in> set (drop k X) \<Longrightarrow> Count y \<le> Count x"
  using desc_append [of "take k X" "drop k X"] by simp

lemma desc_take_ge:
  assumes "desc X" and "k < length X" and "x \<in> set (take (Suc k) X)"
  shows "Count (X ! k) \<le> Count x"
proof -
  from assms(3) obtain t where "t < length (take (Suc k) X)" and "x = take (Suc k) X ! t"
    by (metis in_set_conv_nth)
  then have "t \<le> k" and "x = X ! t" using assms(2) by simp_all
  with desc_nth_le [OF assms(1) _ assms(2)] show ?thesis by simp
qed

lemma desc_drop_le:
  assumes "desc X" and "k < length X" and "y \<in> set (drop k X)"
  shows "Count y \<le> Count (X ! k)"
proof -
  from assms(3) obtain t where "t < length (drop k X)" and "y = drop k X ! t"
    by (metis in_set_conv_nth)
  then have "k + t < length X" and "y = X ! (k + t)" using assms(2) by simp_all
  with desc_nth_le [OF assms(1), of k "k + t"] show ?thesis by simp
qed

lemma symMerge_func_left1:
  assumes "desc R"
  shows "\<exists>S. symMerge_func byCount (pre @ [x] @ R @ post) (length pre) (length pre + 1)
                (length pre + 1 + length R) = pre @ S @ post
            \<and> mset S = add_mset x (mset R) \<and> desc S"
proof -
  let ?data = "pre @ [x] @ R @ post"
  let ?a = "length pre"
  let ?m = "length pre + 1"
  let ?b = "length pre + 1 + length R"
  let ?P = "\<lambda>h. byCount ?data h ?a"
  define i where "i = symMerge_search ?P ?m ?b"
  have "?m \<le> ?b" by simp
  from symMerge_search_bounds [OF this, of ?P]
  have ib: "?m \<le> i" "i \<le> ?b" and lo: "?m < i \<Longrightarrow> ?P (i - 1)" and hi: "i < ?b \<Longrightarrow> \<not> ?P i"
    unfolding i_def by blast+
  define k where "k = i - ?m"
  have k: "k \<le> length R" and ik: "i = ?m + k" using ib by (simp_all add: k_def)
  define R1 where "R1 = take k R"
  define R2 where "R2 = drop k R"
  have R: "R = R1 @ R2" and l1: "length R1 = k" using k by (simp_all add: R1_def R2_def)
  have res: "symMerge_func byCount ?data ?a ?m ?b = swap_up ?data ?a (i - 1)"
    by (subst symMerge_func.simps) (simp add: i_def Let_def)
  have "swap_up (pre @ x # R1 @ (R2 @ post)) (length pre) (length pre + length R1)
        = pre @ R1 @ x # (R2 @ post)"
    by (rule swap_up_shift)
  then have sh: "swap_up ?data ?a (i - 1) = pre @ (R1 @ x # R2) @ post"
    using R l1 ik by simp
  have na: "?data ! ?a = x" by (simp add: nth_append)
  have nR: "\<And>t. t < length R \<Longrightarrow> ?data ! (?m + t) = R ! t"
    by (simp add: nth_append)
  have up: "\<forall>r\<in>set R1. Count x \<le> Count r"
  proof (cases "k = 0")
    case True
    then show ?thesis by (simp add: R1_def)
  next
    case False
    then have "?m < i" and k1: "k - 1 < length R" and ii: "i - 1 = ?m + (k - 1)"
      using ik k by simp_all
    from lo [OF this(1)] have "Count x \<le> Count (R ! (k - 1))"
      unfolding ii using nR [OF k1] na by (simp add: byCount_def)
    moreover have "\<And>r. r \<in> set R1 \<Longrightarrow> Count (R ! (k - 1)) \<le> Count r"
      using desc_take_ge [OF assms k1] False by (simp add: R1_def)
    ultimately show ?thesis by force
  qed
  have down: "\<forall>r\<in>set R2. Count r \<le> Count x"
  proof (cases "k = length R")
    case True
    then show ?thesis by (simp add: R2_def)
  next
    case False
    then have kl: "k < length R" and "i < ?b" using k ik by simp_all
    from hi [OF this(2)] have "Count (R ! k) < Count x"
      unfolding ik using nR [OF kl] na by (simp add: byCount_def)
    moreover have "\<And>r. r \<in> set R2 \<Longrightarrow> Count r \<le> Count (R ! k)"
      using desc_drop_le [OF assms kl] by (simp add: R2_def)
    ultimately show ?thesis by force
  qed
  have d1: "desc R1" and d2: "desc R2" and d12: "\<forall>u\<in>set R1. \<forall>v\<in>set R2. Count v \<le> Count u"
    using assms desc_append [of R1 R2] R by simp_all
  have "desc (R1 @ x # R2)"
    using d1 d2 d12 up down by (auto simp: desc_append desc_Cons)
  moreover have "mset R = mset R1 + mset R2" using R by (metis mset_append)
  then have "mset (R1 @ x # R2) = add_mset x (mset R)" by simp
  ultimately show ?thesis using res sh by (intro exI [of _ "R1 @ x # R2"]) simp
qed

lemma symMerge_func_right1:
  assumes "desc L" and "length L \<noteq> 1"
  shows "\<exists>S. symMerge_func byCount (pre @ L @ [y] @ post) (length pre) (length pre + length L)
                (length pre + length L + 1) = pre @ S @ post
            \<and> mset S = add_mset y (mset L) \<and> desc S"
proof -
  let ?data = "pre @ L @ [y] @ post"
  let ?a = "length pre"
  let ?m = "length pre + length L"
  let ?b = "length pre + length L + 1"
  let ?P = "\<lambda>h. \<not> byCount ?data ?m h"
  define i where "i = symMerge_search ?P ?a ?m"
  have "?a \<le> ?m" by simp
  from symMerge_search_bounds [OF this, of ?P]
  have ib: "?a \<le> i" "i \<le> ?m" and lo: "?a < i \<Longrightarrow> ?P (i - 1)" and hi: "i < ?m \<Longrightarrow> \<not> ?P i"
    unfolding i_def by blast+
  define k where "k = i - ?a"
  have k: "k \<le> length L" and ik: "i = ?a + k" using ib by (simp_all add: k_def)
  define L1 where "L1 = take k L"
  define L2 where "L2 = drop k L"
  have L: "L = L1 @ L2" and l1: "length L1 = k" and l2: "length L2 = length L - k"
    using k by (simp_all add: L1_def L2_def)
  have res: "symMerge_func byCount ?data ?a ?m ?b = swap_down ?data ?m i"
    using assms(2) by (subst symMerge_func.simps) (simp add: i_def Let_def)
  have e1: "(pre @ L1) @ L2 @ y # post = ?data" using L by simp
  have e3: "length (pre @ L1) = i" using l1 ik by simp
  have e2: "i + length L2 = ?m" using l1 l2 k ik by simp
  have "swap_down ((pre @ L1) @ L2 @ y # post) (length (pre @ L1) + length L2) (length (pre @ L1))
        = (pre @ L1) @ y # L2 @ post"
    by (rule swap_down_shift)
  then have sh: "swap_down ?data ?m i = pre @ (L1 @ y # L2) @ post"
    unfolding e1 e3 e2 by simp
  have nm: "?data ! ?m = y" by (simp add: nth_append)
  have nL: "\<And>t. t < length L \<Longrightarrow> ?data ! (?a + t) = L ! t"
    by (simp add: nth_append)
  have up: "\<forall>l\<in>set L1. Count y \<le> Count l"
  proof (cases "k = 0")
    case True
    then show ?thesis by (simp add: L1_def)
  next
    case False
    then have "?a < i" and k1: "k - 1 < length L" and ii: "i - 1 = ?a + (k - 1)"
      using ik k by simp_all
    from lo [OF this(1)] have "Count y < Count (L ! (k - 1))"
      unfolding ii using nL [OF k1] nm by (simp add: byCount_def)
    moreover have "\<And>l. l \<in> set L1 \<Longrightarrow> Count (L ! (k - 1)) \<le> Count l"
      using desc_take_ge [OF assms(1) k1] False by (simp add: L1_def)
    ultimately show ?thesis by force
  qed
  have down: "\<forall>l\<in>set L2. Count l \<le> Count y"
  proof (cases "k = length L")
    case True
    then show ?thesis by (simp add: L2_def)
  next
    case False
    then have kl: "k < length L" and "i < ?m" using k ik by simp_all
    from hi [OF this(2)] have "Count (L ! k) \<le> Count y"
      unfolding ik using nL [OF kl] nm by (simp add: byCount_def)
    moreover have "\<And>l. l \<in> set L2 \<Longrightarrow> Count l \<le> Count (L ! k)"
      using desc_drop_le [OF assms(1) kl] by (simp add: L2_def)
    ultimately show ?thesis by force
  qed
  have d1: "desc L1" and d2: "desc L2" and d12: "\<forall>u\<in>set L1. \<forall>v\<in>set L2. Count v \<le> Count u"
    using assms(1) desc_append [of L1 L2] L by simp_all
  have "desc (L1 @ y # L2)"
    using d1 d2 d12 up down by (auto simp: desc_append desc_Cons)
  moreover have "mset L = mset L1 + mset L2" using L by (metis mset_append)
  then have "mset (L1 @ y # L2) = add_mset y (mset L)" by simp
  ultimately show ?thesis using res sh by (intro exI [of _ "L1 @ y # L2"]) simp
qed

lemma symMerge_func_sorted_aux:
  assumes "data = pre @ L @ R @ post" and "a = length pre" and "m = a + length L"
    and "b = m + length R" and "desc L" and "desc R" and "L \<noteq> []" and "R \<noteq> []"
  shows "\<exists>S. symMerge_func byCount data a m b = pre @ S @ post
            \<and> mset S = mset L + mset R \<and> desc S"
  using assms
proof (induction "length L + length R" arbitrary: data a m b pre L R post rule: less_induct)
  case less
  note data = less.prems(1) and a = less.prems(2) and m = less.prems(3) and b = less.prems(4)
    and dL = less.prems(5) and dR = less.prems(6) and L0 = less.prems(7) and R0 = less.prems(8)
  show ?case
  proof (cases "length L = 1")
    case True
    then obtain x where L: "L = [x]" by (cases L) auto
    from symMerge_func_left1 [OF dR, of pre x post] show ?thesis
      unfolding data a m b L by simp
  next
    case nL1: False
    show ?thesis
    proof (cases "length R = 1")
      case True
      then obtain y where R: "R = [y]" by (cases R) auto
      from symMerge_func_right1 [OF dL nL1, of pre y post] show ?thesis
        unfolding data a m b R by simp
    next
      case nR1: False
      have "length L \<noteq> 0" and "length R \<noteq> 0" using L0 R0 by simp_all
      then have lL: "2 \<le> length L" and lR: "2 \<le> length R" using nL1 nR1 by linarith+
      define mid where "mid = (a + b) div 2"
      define n where "n = mid + m"
      define start0 where "start0 = (if mid < m then n - b else a)"
      define r where "r = (if mid < m then mid else m)"
      define p where "p = n - 1"
      define start where "start = symMerge_search (\<lambda>c. \<not> byCount data (p - c) c) start0 r"
      define en where "en = n - start"
      define data1 where
        "data1 = (if start < m \<and> m < en then rotate_func data start m en else data)"
      define data2 where
        "data2 = (if a < start \<and> start < mid then symMerge_func byCount data1 a start mid else data1)"
      define result where
        "result = (if mid < en \<and> en < b then symMerge_func byCount data2 mid en b else data2)"
      have ne1: "m - a \<noteq> 1" and ne2: "b - m \<noteq> 1" using nL1 nR1 m b by simp_all
      have unfold: "symMerge_func byCount data a m b = result"
        unfolding result_def data2_def data1_def en_def start_def p_def r_def start0_def
          n_def mid_def
        by (subst symMerge_func.simps) (simp only: ne1 ne2 if_False Let_def)
      \<comment> \<open>index arithmetic\<close>
      have am: "a + 2 \<le> m" and mb: "m + 2 \<le> b" using lL lR m b by simp_all
      have mid_lo: "a < mid" and mid_hi: "mid < b" using am mb by (simp_all add: mid_def)
      have s0r: "start0 \<le> r" using am mb by (auto simp: start0_def r_def n_def mid_def)
      have a_s0: "a \<le> start0" using am mb by (auto simp: start0_def n_def mid_def)
      have r_m: "r \<le> m" and r_mid: "r \<le> mid" by (auto simp: r_def)
      from symMerge_search_bounds [OF s0r, of "\<lambda>c. \<not> byCount data (p - c) c"]
      have sb: "start0 \<le> start" "start \<le> r"
        and lo: "start0 < start \<Longrightarrow> \<not> byCount data (p - (start - 1)) (start - 1)"
        and hi: "start < r \<Longrightarrow> byCount data (p - start) start"
        unfolding start_def by blast+
      have s_a: "a \<le> start" and s_m: "start \<le> m" and s_mid: "start \<le> mid"
        using sb a_s0 r_m r_mid by simp_all
      have en_eq: "en + start = mid + m" using s_m by (simp add: en_def n_def)
      have en_m: "m \<le> en" using en_eq s_mid by simp
      have en_b: "en \<le> b"
      proof (cases "mid < m")
        case True
        then have "n - b \<le> start" using sb by (simp add: start0_def)
        then show ?thesis using en_eq by (simp add: n_def)
      next
        case False
        then have "m + m \<le> a + b" by (simp add: mid_def)
        then have "mid + m \<le> a + b" by (simp add: mid_def)
        with s_a en_eq show ?thesis by simp
      qed
      \<comment> \<open>the four pieces\<close>
      define L1 where "L1 = take (start - a) L"
      define L2 where "L2 = drop (start - a) L"
      define R1 where "R1 = take (en - m) R"
      define R2 where "R2 = drop (en - m) R"
      have L: "L = L1 @ L2" and R: "R = R1 @ R2" by (simp_all add: L1_def L2_def R1_def R2_def)
      have lL1: "length L1 = start - a" and lL2: "length L2 = m - start"
        and lR1: "length R1 = en - m" and lR2: "length R2 = b - en"
        using s_a s_m en_m en_b m b by (auto simp: L1_def L2_def R1_def R2_def)
      have lR1': "length R1 = mid - start" using lR1 en_eq by simp
      have dL1: "desc L1" and dL2: "desc L2" and dR1: "desc R1" and dR2: "desc R2"
        using dL dR by (simp_all add: L1_def L2_def R1_def R2_def desc_take desc_drop)
      have L12: "\<And>x y. x \<in> set L1 \<Longrightarrow> y \<in> set L2 \<Longrightarrow> Count y \<le> Count x"
        unfolding L1_def L2_def by (rule desc_take_drop_le [OF dL])
      have R12: "\<And>x y. x \<in> set R1 \<Longrightarrow> y \<in> set R2 \<Longrightarrow> Count y \<le> Count x"
        unfolding R1_def R2_def by (rule desc_take_drop_le [OF dR])
      have nthL: "\<And>c. a \<le> c \<Longrightarrow> c < m \<Longrightarrow> data ! c = L ! (c - a)"
        unfolding data a m by (simp add: nth_append)
      have nthR: "\<And>c. m \<le> c \<Longrightarrow> c < b \<Longrightarrow> data ! c = R ! (c - m)"
        unfolding data a m b by (auto simp: nth_append)
      \<comment> \<open>what the binary search found\<close>
      have A: "\<And>x y. x \<in> set L1 \<Longrightarrow> y \<in> set R2 \<Longrightarrow> Count y \<le> Count x"
      proof -
        fix x y assume x: "x \<in> set L1" and y: "y \<in> set R2"
        from length_pos_if_in_set [OF x] have as: "a < start" using lL1 by linarith
        from length_pos_if_in_set [OF y] have eb: "en < b" using lR2 by linarith
        have "start0 < start"
        proof (cases "mid < m")
          case True
          then have "start0 = mid + m - b" by (simp add: start0_def n_def)
          then show ?thesis using eb en_eq as by linarith
        next
          case False
          then show ?thesis using as by (simp add: start0_def)
        qed
        from lo [OF this] have "Count (data ! (p - (start - 1))) < Count (data ! (start - 1))"
          by (simp add: byCount_def)
        moreover have "p - (start - 1) = en" using as en_eq by (simp add: p_def n_def)
        ultimately have "Count (data ! en) < Count (data ! (start - 1))" by simp
        moreover have "data ! en = R ! (en - m)" using nthR [OF en_m eb] .
        moreover have "data ! (start - 1) = L ! (start - 1 - a)"
          using nthL [of "start - 1"] as s_m by simp
        ultimately have key: "Count (R ! (en - m)) < Count (L ! (start - 1 - a))" by simp
        have k1: "start - 1 - a < length L" using as s_m m by simp
        have "Suc (start - 1 - a) = start - a" using as by simp
        with x have "x \<in> set (take (Suc (start - 1 - a)) L)" by (simp add: L1_def)
        from desc_take_ge [OF dL k1 this] have c1: "Count (L ! (start - 1 - a)) \<le> Count x" .
        have k2: "en - m < length R" using eb en_m b by simp
        from desc_drop_le [OF dR k2] y have c2: "Count y \<le> Count (R ! (en - m))"
          by (simp add: R2_def)
        from key c1 c2 show "Count y \<le> Count x" by simp
      qed
      have B: "\<And>x y. x \<in> set R1 \<Longrightarrow> y \<in> set L2 \<Longrightarrow> Count y \<le> Count x"
      proof -
        fix x y assume x: "x \<in> set R1" and y: "y \<in> set L2"
        from length_pos_if_in_set [OF x] have me: "m < en" and smid: "start < mid"
          using lR1 lR1' by linarith+
        from length_pos_if_in_set [OF y] have sm: "start < m" using lL2 by linarith
        have "start < r" using sm smid by (simp add: r_def)
        from hi [OF this] have "Count (data ! start) \<le> Count (data ! (p - start))"
          by (simp add: byCount_def)
        moreover have "p - start = en - 1" by (simp add: p_def en_def)
        ultimately have "Count (data ! start) \<le> Count (data ! (en - 1))" by simp
        moreover have "data ! (en - 1) = R ! (en - 1 - m)"
          using nthR [of "en - 1"] me en_b by simp
        moreover have "data ! start = L ! (start - a)" using nthL [OF s_a sm] .
        ultimately have key: "Count (L ! (start - a)) \<le> Count (R ! (en - 1 - m))" by simp
        have k1: "en - 1 - m < length R" using me en_b b by simp
        have "Suc (en - 1 - m) = en - m" using me by simp
        with x have "x \<in> set (take (Suc (en - 1 - m)) R)" by (simp add: R1_def)
        from desc_take_ge [OF dR k1 this] have c1: "Count (R ! (en - 1 - m)) \<le> Count x" .
        have k2: "start - a < length L" using sm s_a m by simp
        from desc_drop_le [OF dL k2] y have c2: "Count y \<le> Count (L ! (start - a))"
          by (simp add: L2_def)
        from key c1 c2 show "Count y \<le> Count x" by simp
      qed
      \<comment> \<open>the rotation\<close>
      have d1: "data1 = pre @ L1 @ R1 @ L2 @ R2 @ post"
      proof (cases "start < m \<and> m < en")
        case True
        then have "L2 \<noteq> []" and "R1 \<noteq> []" using lL2 lR1 by auto
        then have "rotate_func ((pre @ L1) @ L2 @ R1 @ (R2 @ post)) start m en
                   = (pre @ L1) @ R1 @ L2 @ (R2 @ post)"
          by (rule rotate_func_blocks) (use lL1 lL2 lR1 a s_a s_m en_m in auto)
        moreover have "data = (pre @ L1) @ L2 @ R1 @ (R2 @ post)"
          unfolding data by (subst L, subst R) simp
        moreover from True have "data1 = rotate_func data start m en"
          unfolding data1_def by (rule if_P)
        ultimately show ?thesis by simp
      next
        case False
        then have "L2 = [] \<or> R1 = []" using lL2 lR1 s_m en_m by auto
        moreover have "data = pre @ L1 @ L2 @ R1 @ R2 @ post"
          unfolding data by (subst L, subst R) simp
        moreover from False have "data1 = data" unfolding data1_def by (rule if_not_P)
        ultimately show ?thesis by auto
      qed
      \<comment> \<open>the left half\<close>
      have "\<exists>S1. data2 = pre @ S1 @ L2 @ R2 @ post \<and> mset S1 = mset L1 + mset R1 \<and> desc S1"
      proof (cases "a < start \<and> start < mid")
        case True
        then have ne: "L1 \<noteq> []" "R1 \<noteq> []" using lL1 lR1' by auto
        have sz: "length L1 + length R1 < length L + length R"
          using lL1 lR1' s_a s_mid mid_hi m b by simp
        have "\<exists>S. symMerge_func byCount data1 a start mid = pre @ S @ (L2 @ R2 @ post)
                \<and> mset S = mset L1 + mset R1 \<and> desc S"
          by (rule less.hyps [OF sz _ _ _ _ dL1 dR1 ne])
            (use d1 a lL1 lR1' s_a s_mid in simp_all)
        moreover from True have "data2 = symMerge_func byCount data1 a start mid"
          unfolding data2_def by (rule if_P)
        ultimately show ?thesis by simp
      next
        case False
        then have e: "L1 = [] \<or> R1 = []" using lL1 lR1' s_a s_mid by auto
        then have "desc (L1 @ R1)" using dL1 dR1 by auto
        moreover from False have "data2 = data1" unfolding data2_def by (rule if_not_P)
        ultimately show ?thesis using d1 by (intro exI [of _ "L1 @ R1"]) simp
      qed
      then obtain S1 where d2: "data2 = pre @ S1 @ L2 @ R2 @ post"
        and mS1: "mset S1 = mset L1 + mset R1" and dS1: "desc S1" by blast
      have lS1: "length S1 = mid - a"
      proof -
        have "length S1 = length L1 + length R1" using mS1 by (metis size_mset size_union)
        then show ?thesis using lL1 lR1' s_a s_mid by simp
      qed
      \<comment> \<open>the right half\<close>
      have "\<exists>S2. result = pre @ S1 @ S2 @ post \<and> mset S2 = mset L2 + mset R2 \<and> desc S2"
      proof (cases "mid < en \<and> en < b")
        case True
        then have ne: "L2 \<noteq> []" "R2 \<noteq> []" using lL2 lR2 en_eq by auto
        have sz: "length L2 + length R2 < length L + length R"
          using lL2 lR2 en_eq en_b mid_lo s_m m b by simp
        have "\<exists>S. symMerge_func byCount data2 mid en b = (pre @ S1) @ S @ post
                \<and> mset S = mset L2 + mset R2 \<and> desc S"
          by (rule less.hyps [OF sz _ _ _ _ dL2 dR2 ne])
            (use d2 a lS1 lL2 lR2 mid_lo en_eq en_b s_m in simp_all)
        moreover from True have "result = symMerge_func byCount data2 mid en b"
          unfolding result_def by (rule if_P)
        ultimately show ?thesis by simp
      next
        case False
        then have e: "L2 = [] \<or> R2 = []" using lL2 lR2 en_eq en_b s_m by auto
        then have "desc (L2 @ R2)" using dL2 dR2 by auto
        moreover from False have "result = data2" unfolding result_def by (rule if_not_P)
        ultimately show ?thesis using d2 by (intro exI [of _ "L2 @ R2"]) simp
      qed
      then obtain S2 where res: "result = pre @ S1 @ S2 @ post"
        and mS2: "mset S2 = mset L2 + mset R2" and dS2: "desc S2" by blast
      have set1: "set S1 = set L1 \<union> set R1" using mS1 by (metis set_mset_mset set_mset_union)
      have set2: "set S2 = set L2 \<union> set R2" using mS2 by (metis set_mset_mset set_mset_union)
      have "desc (S1 @ S2)"
        unfolding desc_append set1 set2 using dS1 dS2 L12 R12 A B by blast
      moreover have "mset L = mset L1 + mset L2" using L by (metis mset_append)
      moreover have "mset R = mset R1 + mset R2" using R by (metis mset_append)
      ultimately show ?thesis
        using unfold res mS1 mS2 by (intro exI [of _ "S1 @ S2"]) simp
    qed
  qed
qed

lemma symMerge_func_sorted:
  assumes "desc L" and "desc R" and "L \<noteq> []" and "R \<noteq> []"
  shows "\<exists>S. symMerge_func byCount (pre @ L @ R @ post) (length pre) (length pre + length L)
               (length pre + length L + length R) = pre @ S @ post
            \<and> mset S = mset L + mset R \<and> desc S"
  by (rule symMerge_func_sorted_aux [OF refl refl refl refl assms])

lemma chunks_desc_short: "length xs \<le> bs \<Longrightarrow> chunks_desc bs xs = desc xs"
  by (subst chunks_desc.simps) simp

lemma chunks_desc_take_drop:
  assumes "0 < bs" and "chunks_desc bs xs"
  shows "desc (take bs xs) \<and> chunks_desc bs (drop bs xs)"
proof (cases "length xs \<le> bs")
  case True
  with assms(2) have "desc xs" by (simp add: chunks_desc_short)
  moreover have "chunks_desc bs []" by (simp add: chunks_desc_short)
  ultimately show ?thesis using True by simp
next
  case False
  with assms show ?thesis by (subst (asm) chunks_desc.simps) simp
qed

lemma chunks_desc_append:
  assumes "length B = bs" and "0 < bs" and "desc B" and "chunks_desc bs rest"
  shows "chunks_desc bs (B @ rest)"
proof (cases "rest = []")
  case True
  with assms show ?thesis by (simp add: chunks_desc_short)
next
  case False
  with assms show ?thesis by (subst chunks_desc.simps) simp
qed

lemma stable_blocks_sorted:
  assumes "a = length pre" and "b = a + 20" and "n = length pre + length rest"
  shows "\<exists>rest'. stable_blocks byCount (pre @ rest) n a b = pre @ rest'
            \<and> mset rest' = mset rest \<and> chunks_desc 20 rest'"
  using assms
proof (induction "length rest" arbitrary: pre rest a b rule: less_induct)
  case less
  note a = less.prems(1) and b = less.prems(2) and n = less.prems(3)
  show ?case
  proof (cases "b \<le> n")
    case True
    then have len: "20 \<le> length rest" using a b n by simp
    define B where "B = take 20 rest"
    define rest1 where "rest1 = drop 20 rest"
    have rest: "rest = B @ rest1" and lB: "length B = 20" and l1: "length rest1 < length rest"
      using len by (simp_all add: B_def rest1_def)
    from insertionSort_func_sorted [of pre B rest1] obtain B' where
      ins: "insertionSort_func byCount (pre @ B @ rest1) (length pre) (length pre + length B)
            = pre @ B' @ rest1"
      and mB: "mset B' = mset B" and dB: "desc B'" by blast
    have lB': "length B' = 20" using mB lB by (metis size_mset)
    have "\<exists>rest'. stable_blocks byCount ((pre @ B') @ rest1) n b (b + 20) = (pre @ B') @ rest'
            \<and> mset rest' = mset rest1 \<and> chunks_desc 20 rest'"
      by (rule less.hyps [OF l1]) (use a b n lB lB' rest in simp_all)
    then obtain rest1' where
      r: "stable_blocks byCount ((pre @ B') @ rest1) n b (b + 20) = (pre @ B') @ rest1'"
      and m1: "mset rest1' = mset rest1" and c1: "chunks_desc 20 rest1'" by blast
    have "stable_blocks byCount (pre @ rest) n a b
          = stable_blocks byCount (insertionSort_func byCount (pre @ rest) a b) n b (b + 20)"
      using True by (subst stable_blocks.simps) simp
    also have "insertionSort_func byCount (pre @ rest) a b = (pre @ B') @ rest1"
      using ins lB a b rest by simp
    finally have "stable_blocks byCount (pre @ rest) n a b = pre @ (B' @ rest1')"
      using r by simp
    moreover have "chunks_desc 20 (B' @ rest1')"
      by (rule chunks_desc_append [OF lB' _ dB c1]) simp
    moreover have "mset (B' @ rest1') = mset rest"
      using mB m1 rest by (metis mset_append)
    ultimately show ?thesis by blast
  next
    case False
    then have len: "length rest < 20" using a b n by simp
    from insertionSort_func_sorted [of pre rest "[]"] obtain rest' where
      ins: "insertionSort_func byCount (pre @ rest) (length pre) (length pre + length rest)
            = pre @ rest'"
      and m: "mset rest' = mset rest" and d: "desc rest'" by auto
    have "length rest' = length rest" using m by (metis size_mset)
    with len d have "chunks_desc 20 rest'" by (simp add: chunks_desc_short)
    moreover have "stable_blocks byCount (pre @ rest) n a b = pre @ rest'"
      using False ins a n by (subst stable_blocks.simps) simp
    ultimately show ?thesis using m by blast
  qed
qed

lemma stable_merge_blocks_sorted:
  assumes "0 < bs" and "a = length pre" and "b = a + 2 * bs" and "n = length pre + length rest"
    and "chunks_desc bs rest"
  shows "\<exists>rest'. stable_merge_blocks byCount (pre @ rest) n bs a b = pre @ rest'
            \<and> mset rest' = mset rest \<and> chunks_desc (2 * bs) rest'"
  using assms
proof (induction "length rest" arbitrary: pre rest a b rule: less_induct)
  case less
  note bs = less.prems(1) and a = less.prems(2) and b = less.prems(3) and n = less.prems(4)
    and ch = less.prems(5)
  define L where "L = take bs rest"
  define rest0 where "rest0 = drop bs rest"
  have rest: "rest = L @ rest0" by (simp add: L_def rest0_def)
  from chunks_desc_take_drop [OF bs ch] have dL: "desc L" and ch0: "chunks_desc bs rest0"
    by (simp_all add: L_def rest0_def)
  show ?case
  proof (cases "b \<le> n")
    case True
    then have len: "2 * bs \<le> length rest" using a b n by simp
    define R where "R = take bs rest0"
    define rest1 where "rest1 = drop bs rest0"
    have rest0: "rest0 = R @ rest1" by (simp add: R_def rest1_def)
    from chunks_desc_take_drop [OF bs ch0] have dR: "desc R" and ch1: "chunks_desc bs rest1"
      by (simp_all add: R_def rest1_def)
    have lL: "length L = bs" and lR: "length R = bs" and l1: "length rest1 < length rest"
      using len bs by (simp_all add: L_def R_def rest0_def rest1_def)
    have ne: "L \<noteq> []" "R \<noteq> []" using lL lR bs by auto
    from symMerge_func_sorted [OF dL dR ne, of pre rest1] obtain S where
      sm: "symMerge_func byCount (pre @ L @ R @ rest1) (length pre) (length pre + length L)
             (length pre + length L + length R) = pre @ S @ rest1"
      and mS: "mset S = mset L + mset R" and dS: "desc S" by blast
    have lS: "length S = 2 * bs" using mS lL lR by (metis size_mset size_union mult_2)
    have "\<exists>rest'. stable_merge_blocks byCount ((pre @ S) @ rest1) n bs b (b + 2 * bs)
                    = (pre @ S) @ rest'
            \<and> mset rest' = mset rest1 \<and> chunks_desc (2 * bs) rest'"
      by (rule less.hyps [OF l1 bs _ _ _ ch1]) (use a b n lL lR lS rest rest0 in simp_all)
    then obtain rest1' where
      r: "stable_merge_blocks byCount ((pre @ S) @ rest1) n bs b (b + 2 * bs) = (pre @ S) @ rest1'"
      and m1: "mset rest1' = mset rest1" and c1: "chunks_desc (2 * bs) rest1'" by blast
    have "stable_merge_blocks byCount (pre @ rest) n bs a b
          = stable_merge_blocks byCount (symMerge_func byCount (pre @ rest) a (a + bs) b)
              n bs b (b + 2 * bs)"
      using True bs by (subst stable_merge_blocks.simps) simp
    also have "symMerge_func byCount (pre @ rest) a (a + bs) b = (pre @ S) @ rest1"
    proof -
      have "a + bs = length pre + length L" and "b = length pre + length L + length R"
        and "pre @ rest = pre @ L @ R @ rest1"
        using lL lR a b rest rest0 by simp_all
      then show ?thesis using sm a by simp
    qed
    finally have "stable_merge_blocks byCount (pre @ rest) n bs a b = pre @ (S @ rest1')"
      using r by simp
    moreover have "chunks_desc (2 * bs) (S @ rest1')"
      by (rule chunks_desc_append [OF lS _ dS c1]) (use bs in simp)
    moreover have "mset (S @ rest1') = mset rest"
      using mS m1 rest rest0 by (metis mset_append add.assoc)
    ultimately show ?thesis by blast
  next
    case False
    then have len: "length rest < 2 * bs" using a b n by simp
    show ?thesis
    proof (cases "a + bs < n")
      case True
      then have lL: "length L = bs" and l0: "0 < length rest0" "length rest0 \<le> bs"
        using a n len by (simp_all add: L_def rest0_def)
      have ne: "L \<noteq> []" "rest0 \<noteq> []" using lL l0 bs by auto
      have d0: "desc rest0" using ch0 l0 by (simp add: chunks_desc_short)
      from symMerge_func_sorted [OF dL d0 ne, of pre "[]"] obtain S where
        sm: "symMerge_func byCount (pre @ L @ rest0) (length pre) (length pre + length L)
               (length pre + length L + length rest0) = pre @ S"
        and mS: "mset S = mset L + mset rest0" and dS: "desc S" by auto
      have "length S = length rest" using mS rest by (metis size_mset mset_append)
      with len dS have cS: "chunks_desc (2 * bs) S" by (simp add: chunks_desc_short)
      have "stable_merge_blocks byCount (pre @ rest) n bs a b
                     = symMerge_func byCount (pre @ rest) a (a + bs) n"
        using False True by (subst stable_merge_blocks.simps) simp
      moreover have "a + bs = length pre + length L"
        and "n = length pre + length L + length rest0" and "pre @ rest = pre @ L @ rest0"
        using lL a n rest by simp_all
      ultimately have "stable_merge_blocks byCount (pre @ rest) n bs a b = pre @ S"
        using sm a by simp
      moreover have "mset S = mset rest" using mS rest by (metis mset_append)
      ultimately show ?thesis using cS by blast
    next
      case F2: False
      then have "length rest \<le> bs" using a n by simp
      then have "desc rest" and "chunks_desc (2 * bs) rest"
        using ch by (simp_all add: chunks_desc_short)
      moreover have "stable_merge_blocks byCount (pre @ rest) n bs a b = pre @ rest"
        using False F2 by (subst stable_merge_blocks.simps) simp
      ultimately show ?thesis by blast
    qed
  qed
qed

lemma stable_passes_sorted:
  assumes "n = length d" and "0 < bs" and "chunks_desc bs d"
  shows "mset (stable_passes byCount d n bs) = mset d \<and> desc (stable_passes byCount d n bs)"
  using assms
proof (induction "n - bs" arbitrary: d bs rule: less_induct)
  case less
  note n = less.prems(1) and bs = less.prems(2) and ch = less.prems(3)
  show ?case
  proof (cases "bs < n")
    case True
    from stable_merge_blocks_sorted [OF bs _ _ _ ch, of 0 "[]" "2 * bs" n] n obtain d1 where
      mb: "stable_merge_blocks byCount d n bs 0 (2 * bs) = d1"
      and m1: "mset d1 = mset d" and c1: "chunks_desc (2 * bs) d1" by auto
    have l1: "n = length d1" using m1 n by (metis size_mset)
    have "stable_passes byCount d n bs = stable_passes byCount d1 n (2 * bs)"
      using True bs mb by (subst stable_passes.simps) simp
    moreover have "mset (stable_passes byCount d1 n (2 * bs)) = mset d1
                   \<and> desc (stable_passes byCount d1 n (2 * bs))"
      by (rule less.hyps [OF _ l1 _ c1]) (use True bs in simp_all)
    ultimately show ?thesis using m1 by simp
  next
    case False
    then have "stable_passes byCount d n bs = d" by (subst stable_passes.simps) simp
    moreover have "desc d" using ch False n by (simp add: chunks_desc_short)
    ultimately show ?thesis by simp
  qed
qed

lemma sort_SliceStable_sorted:
  "mset (sort_SliceStable x byCount) = mset x \<and> desc (sort_SliceStable x byCount)"
proof -
  from stable_blocks_sorted [of 0 "[]" 20 "length x" x] obtain d where
    d: "stable_blocks byCount x (length x) 0 20 = d"
    and m: "mset d = mset x" and c: "chunks_desc 20 d" by auto
  have l: "length x = length d" using m by (metis size_mset)
  from stable_passes_sorted [OF l _ c] m d show ?thesis
    by (simp add: sort_SliceStable_def stable_func_def)
qed

section \<open>Properties of parseFile\<close>

text \<open>
  C1. The claim is that the token sequence never holds an empty string. parseFile
  returns what \<^verbatim>\<open>Split\<close> returns, and \<^verbatim>\<open>Split\<close> keeps the empty string before a leading
  and after a trailing run of whitespace, and returns one empty string for an empty
  text. So an empty file and a file of punctuation give one empty token, a file that
  starts with whitespace gives an empty first token and a file that ends with
  whitespace (a final line feed, say) an empty last one, which countWords then counts
  as a word. Only whitespace in the middle of the text, however long the run, gives
  none.
\<close>

theorem parseFile_keeps_empty_strings:
  "parseFile [''corpus.txt'' \<mapsto> ''''] ''corpus.txt'' = Inr ['''']
   \<and> parseFile [''corpus.txt'' \<mapsto> ''?!''] ''corpus.txt'' = Inr ['''']
   \<and> parseFile [''corpus.txt'' \<mapsto> '' the dog''] ''corpus.txt'' = Inr ['''', ''the'', ''dog'']
   \<and> parseFile [''corpus.txt'' \<mapsto> ''The Dog, the DOG! ''] ''corpus.txt''
       = Inr [''the'', ''dog'', ''the'', ''dog'', '''']
   \<and> parseFile [''corpus.txt'' \<mapsto> ''the   dog''] ''corpus.txt'' = Inr [''the'', ''dog'']
   \<and> countWords [''the'', ''dog'', ''the'', ''dog'', ''''] '''' = Some 1"
proof -
  have "countWords [''the'', ''dog'', ''the'', ''dog'', ''''] '''' = Some 1"
    by (simp add: countWords_def countWords_body_def)
  moreover have "parseFile [''corpus.txt'' \<mapsto> ''''] ''corpus.txt'' = Inr ['''']"
    by code_simp
  moreover have "parseFile [''corpus.txt'' \<mapsto> ''?!''] ''corpus.txt'' = Inr ['''']"
    by code_simp
  moreover have
    "parseFile [''corpus.txt'' \<mapsto> '' the dog''] ''corpus.txt'' = Inr ['''', ''the'', ''dog'']"
    by code_simp
  moreover have "parseFile [''corpus.txt'' \<mapsto> ''The Dog, the DOG! ''] ''corpus.txt''
       = Inr [''the'', ''dog'', ''the'', ''dog'', '''']"
    by code_simp
  moreover have
    "parseFile [''corpus.txt'' \<mapsto> ''the   dog''] ''corpus.txt'' = Inr [''the'', ''dog'']"
    by code_simp
  ultimately show ?thesis by simp
qed

section \<open>Properties of complete\<close>

lemma strings_HasPrefix_iff: "strings_HasPrefix s p \<longleftrightarrow> (\<exists>rest. s = p @ rest)"
proof
  assume "strings_HasPrefix s p"
  then have "s = p @ drop (length p) s"
    by (metis append_take_drop_id strings_HasPrefix_def)
  then show "\<exists>rest. s = p @ rest" ..
next
  assume "\<exists>rest. s = p @ rest"
  then show "strings_HasPrefix s p" by (auto simp: strings_HasPrefix_def)
qed

lemma strings_HasPrefix_empty: "strings_HasPrefix s []"
  by (simp add: strings_HasPrefix_def)

lemma complete_range_eq:
  "complete_range p es acc =
     acc @ map (\<lambda>(w, c). \<lparr>Word = w, Count = c\<rparr>) (filter (\<lambda>(w, c). strings_HasPrefix w p) es)"
  by (induction es arbitrary: acc) auto

lemma Word_complete_range:
  "map Word (complete_range p es []) = filter (\<lambda>w. strings_HasPrefix w p) (map fst es)"
  unfolding complete_range_eq by (induction es) auto

lemma set_complete_range:
  "set (complete_range p es []) =
     {\<lparr>Word = w, Count = c\<rparr> | w c. (w, c) \<in> set es \<and> strings_HasPrefix w p}"
  unfolding complete_range_eq by auto

lemma distinct_complete_range:
  assumes "distinct (map fst es)"
  shows "distinct (map Word (complete_range p es []))" and "distinct (complete_range p es [])"
proof -
  show d: "distinct (map Word (complete_range p es []))"
    unfolding Word_complete_range using assms by (rule distinct_filter)
  then show "distinct (complete_range p es [])" by (rule distinct_map [THEN iffD1, THEN conjunct1])
qed

lemma range_of_entry:
  assumes "range_of m es"
  shows "(w, c) \<in> set es \<longleftrightarrow> m w = Some c"
  using assms by (auto simp: range_of_def)

lemma range_of_keys:
  assumes "range_of m es"
  shows "set (map fst es) = dom m"
  using assms by (auto simp: range_of_def dom_map_of_conv_image_fst intro: rev_image_eqI)

text \<open>What complete returns: the words of a list of candidates that is in descending
  order of count and holds the matching entries, each once.\<close>

lemma complete_sorted_candidates:
  assumes "range_of m es"
  shows "\<exists>S. complete p es = map Word S \<and> desc S
            \<and> mset S = mset (complete_range p es [])
            \<and> distinct (map Word S)
            \<and> set S = {\<lparr>Word = w, Count = c\<rparr> | w c. m w = Some c \<and> strings_HasPrefix w p}"
proof -
  let ?C = "complete_range p es []"
  let ?S = "sort_SliceStable ?C byCount"
  from sort_SliceStable_sorted [of ?C] have m: "mset ?S = mset ?C" and d: "desc ?S" by simp_all
  have dk: "distinct (map fst es)" using assms by (simp add: range_of_def)
  have "mset (map Word ?S) = mset (map Word ?C)" using m by (metis mset_map)
  then have "distinct (map Word ?S)"
    using distinct_complete_range(1) [OF dk, of p] by (metis mset_eq_imp_distinct_iff)
  moreover have "set ?S = set ?C" using m by (metis set_mset_mset)
  then have "set ?S = {\<lparr>Word = w, Count = c\<rparr> | w c. m w = Some c \<and> strings_HasPrefix w p}"
    unfolding set_complete_range using range_of_entry [OF assms] by simp
  moreover have "complete p es = map Word ?S" by (simp add: complete_def)
  ultimately show ?thesis using m d by blast
qed

lemma set_complete:
  assumes "range_of m es"
  shows "set (complete p es) = {w \<in> dom m. strings_HasPrefix w p}"
proof -
  from complete_sorted_candidates [OF assms, of p] obtain S where
    c: "complete p es = map Word S"
    and s: "set S = {\<lparr>Word = w, Count = c\<rparr> | w c. m w = Some c \<and> strings_HasPrefix w p}"
    by blast
  show ?thesis unfolding c set_map s by (auto simp: image_iff dom_def) force
qed

lemma distinct_complete:
  assumes "range_of m es"
  shows "distinct (complete p es)"
  using complete_sorted_candidates [OF assms, of p] by auto

lemma sorted_complete:
  assumes "range_of m es"
  shows "sorted_wrt (\<lambda>u v. the (m v) \<le> the (m u)) (complete p es)"
proof -
  from complete_sorted_candidates [OF assms, of p] obtain S where
    c: "complete p es = map Word S" and d: "desc S"
    and s: "set S = {\<lparr>Word = w, Count = c\<rparr> | w c. m w = Some c \<and> strings_HasPrefix w p}"
    by blast
  have cnt: "\<And>x. x \<in> set S \<Longrightarrow> the (m (Word x)) = Count x" unfolding s by auto
  have "sorted_wrt (\<lambda>x y. the (m (Word y)) \<le> the (m (Word x))) S"
    using d unfolding desc_def
    by (rule sorted_wrt_mono_rel [rotated]) (simp add: cnt)
  then show ?thesis unfolding c by (simp add: sorted_wrt_map)
qed

lemma desc_unique:
  assumes "desc xs" and "desc ys" and "mset xs = mset ys" and "inj_on Count (set xs)"
  shows "xs = ys"
proof -
  let ?k = "\<lambda>x. - Count x"
  have sx: "sorted (map ?k xs)" and sy: "sorted (map ?k ys)"
    using assms(1,2) by (simp_all add: desc_def sorted_map)
  have mm: "mset (map ?k ys) = mset (map ?k xs)" using assms(3) by simp
  have "sort (map ?k xs) = map ?k ys" by (rule properties_for_sort [OF mm sy])
  moreover have "sort (map ?k xs) = map ?k xs" using sx by (rule sorted_sort_id)
  ultimately have eq: "map ?k xs = map ?k ys" by simp
  have "set ys = set xs" using assms(3) by (metis set_mset_mset)
  then have "inj_on ?k (set xs \<union> set ys)"
    using assms(4) by (auto simp: inj_on_def)
  from map_inj_on [OF eq this] show ?thesis .
qed

lemma firstN_nonneg: "0 \<le> n \<Longrightarrow> firstN words n = Inr (take (nat n) words)"
  by (simp add: firstN_def)

text \<open>
  C2. The claim is that two calls of complete with the same prefix on the same,
  unmodified map return the same sequence. Two calls may visit the entries of the map
  in different orders, and then entries of equal count can come out in different
  orders: on the map a:1, b:1 a visit a, b and a visit b, a give different results.
\<close>

theorem complete_not_deterministic_counterexample:
  "range_of [''a'' \<mapsto> 1, ''b'' \<mapsto> 1] [(''a'', 1), (''b'', 1)]
   \<and> range_of [''a'' \<mapsto> 1, ''b'' \<mapsto> 1] [(''b'', 1), (''a'', 1)]
   \<and> complete '''' [(''a'', 1), (''b'', 1)] \<noteq> complete '''' [(''b'', 1), (''a'', 1)]"
proof -
  have "range_of [''a'' \<mapsto> 1, ''b'' \<mapsto> 1] [(''a'', 1), (''b'', 1)]" by (auto simp: range_of_def)
  moreover have "range_of [''a'' \<mapsto> 1, ''b'' \<mapsto> 1] [(''b'', 1), (''a'', 1)]"
    by (auto simp: range_of_def)
  moreover have "complete '''' [(''a'', 1), (''b'', 1)] = [''b'', ''a'']" by code_simp
  moreover have "complete '''' [(''b'', 1), (''a'', 1)] = [''a'', ''b'']" by code_simp
  ultimately show ?thesis by simp
qed

text \<open>
  C2, as amended. For every frequency map and prefix, two calls of complete on the
  unmodified map, whatever the orders in which they visit its entries, return the same
  tokens, each once; and they return the same sequence whenever no two tokens of the
  map that start with the prefix have the same count.
\<close>

theorem complete_same_elements:
  assumes "range_of m es1" and "range_of m es2"
  shows "mset (complete p es1) = mset (complete p es2)
       \<and> distinct (complete p es1)
       \<and> ((\<forall>u v. u \<in> dom m \<and> v \<in> dom m \<and> strings_HasPrefix u p \<and> strings_HasPrefix v p \<and> u \<noteq> v
                 \<longrightarrow> m u \<noteq> m v)
            \<longrightarrow> complete p es1 = complete p es2)"
proof -
  from complete_sorted_candidates [OF assms(1), of p] obtain S1 where
    c1: "complete p es1 = map Word S1" and d1: "desc S1" and w1: "distinct (map Word S1)"
    and s1: "set S1 = {\<lparr>Word = w, Count = c\<rparr> | w c. m w = Some c \<and> strings_HasPrefix w p}"
    by blast
  from complete_sorted_candidates [OF assms(2), of p] obtain S2 where
    c2: "complete p es2 = map Word S2" and d2: "desc S2" and w2: "distinct (map Word S2)"
    and s2: "set S2 = {\<lparr>Word = w, Count = c\<rparr> | w c. m w = Some c \<and> strings_HasPrefix w p}"
    by blast
  have "distinct S1" and "distinct S2" using w1 w2 by (simp_all add: distinct_map)
  moreover have "set S1 = set S2" unfolding s1 s2 ..
  ultimately have ms: "mset S1 = mset S2" by (metis set_eq_iff_mset_eq_distinct)
  then have a: "mset (complete p es1) = mset (complete p es2)" unfolding c1 c2 by (metis mset_map)
  have b: "distinct (complete p es1)" unfolding c1 by (rule w1)
  have c: "complete p es1 = complete p es2"
    if h: "\<forall>u v. u \<in> dom m \<and> v \<in> dom m \<and> strings_HasPrefix u p \<and> strings_HasPrefix v p \<and> u \<noteq> v
                 \<longrightarrow> m u \<noteq> m v"
  proof -
    have "inj_on Count (set S1)"
    proof (rule inj_onI)
      fix x y assume "x \<in> set S1" "y \<in> set S1" and eq: "Count x = Count y"
      then obtain w c w' c' where x: "x = \<lparr>Word = w, Count = c\<rparr>" "m w = Some c" "strings_HasPrefix w p"
        and y: "y = \<lparr>Word = w', Count = c'\<rparr>" "m w' = Some c'" "strings_HasPrefix w' p"
        unfolding s1 by blast
      from eq x(1) y(1) have "c = c'" by simp
      with x y h have "w = w'" by (metis domI)
      with x(1) y(1) \<open>c = c'\<close> show "x = y" by simp
    qed
    from desc_unique [OF d1 d2 ms this] show ?thesis unfolding c1 c2 by simp
  qed
  from a b c show ?thesis by blast
qed

theorem complete_same_elements_witness:
  "range_of [''a'' \<mapsto> 2, ''b'' \<mapsto> 1] [(''a'', 2), (''b'', 1)]
   \<and> range_of [''a'' \<mapsto> 2, ''b'' \<mapsto> 1] [(''b'', 1), (''a'', 2)]
   \<and> mset (complete '''' [(''a'', 2), (''b'', 1)]) = mset (complete '''' [(''b'', 1), (''a'', 2)])
   \<and> complete '''' [(''a'', 2), (''b'', 1)] = complete '''' [(''b'', 1), (''a'', 2)]"
proof -
  let ?m = "[''a'' \<mapsto> (2::int), ''b'' \<mapsto> 1]"
  have h1: "range_of ?m [(''a'', 2), (''b'', 1)]" by (auto simp: range_of_def)
  have h2: "range_of ?m [(''b'', 1), (''a'', 2)]" by (auto simp: range_of_def)
  have h3: "\<forall>u v. u \<in> dom ?m \<and> v \<in> dom ?m \<and> strings_HasPrefix u '''' \<and> strings_HasPrefix v '''' \<and> u \<noteq> v
                 \<longrightarrow> ?m u \<noteq> ?m v"
    by auto
  from complete_same_elements [OF h1 h2, of "''''"] h1 h2 h3 show ?thesis by blast
qed

text \<open>
  C3. The claim is that entries of equal count keep the relative order in which the
  visit of the map met them. complete calls the stable sort with a \<^verbatim>\<open>less\<close> that is true
  of two entries of equal count, in both directions, and the insertion sort of
  \<^verbatim>\<open>sort.SliceStable\<close> then moves every entry in front of the entries of equal count
  met before it: with a met before b, both of count 1, the result is b, a; the three
  tokens of count 3 met as the, tan, ten come out as ten, tan, the.
\<close>

theorem complete_reverses_ties:
  "complete '''' [(''a'', 1), (''b'', 1)] = [''b'', ''a'']
   \<and> complete ''t'' [(''the'', 3), (''cat'', 2), (''tan'', 3), (''ton'', 1), (''ten'', 3)]
       = [''ten'', ''tan'', ''the'', ''ton'']"
  by code_simp

text \<open>
  C4. For every frequency map \<open>I\<close>, every visit \<open>es\<close> of its entries, every prefix \<open>P\<close>
  and every limit \<open>n \<ge> 0\<close>, the first \<open>n\<close> of complete's result are in descending order
  of count; a token of \<open>I\<close> that starts with \<open>P\<close> and has a count strictly greater than
  the count of some returned token is itself returned; and a token that starts with
  \<open>P\<close> is left out only when the result was cut to \<open>n\<close> tokens.
\<close>

theorem complete_ranked:
  assumes "range_of I es" and "0 \<le> n"
  shows "\<exists>r. firstN (complete P es) n = Inr r
           \<and> sorted_wrt (\<lambda>u v. the (I v) \<le> the (I u)) r
           \<and> (\<forall>t u. t \<in> dom I \<and> strings_HasPrefix t P \<and> u \<in> set r \<and> the (I u) < the (I t)
                  \<longrightarrow> t \<in> set r)
           \<and> (\<forall>t. t \<in> dom I \<and> strings_HasPrefix t P \<and> t \<notin> set r \<longrightarrow> length r = nat n)"
proof -
  let ?full = "complete P es"
  let ?k = "nat n"
  let ?r = "take ?k ?full"
  have f: "firstN ?full n = Inr ?r" using assms(2) by (rule firstN_nonneg)
  have sf: "sorted_wrt (\<lambda>u v. the (I v) \<le> the (I u)) ?full" by (rule sorted_complete [OF assms(1)])
  then have "sorted_wrt (\<lambda>u v. the (I v) \<le> the (I u)) (?r @ drop ?k ?full)" by simp
  then have s: "sorted_wrt (\<lambda>u v. the (I v) \<le> the (I u)) ?r"
    and cross: "\<And>x y. x \<in> set ?r \<Longrightarrow> y \<in> set (drop ?k ?full) \<Longrightarrow> the (I y) \<le> the (I x)"
    unfolding sorted_wrt_append by blast+
  have mem: "\<And>t. t \<in> dom I \<Longrightarrow> strings_HasPrefix t P \<Longrightarrow> t \<in> set ?full"
    using set_complete [OF assms(1), of P] by simp
  have split: "\<And>t. t \<in> set ?full \<Longrightarrow> t \<notin> set ?r \<Longrightarrow> t \<in> set (drop ?k ?full)"
    by (metis Un_iff append_take_drop_id set_append)
  have a: "\<And>t u. t \<in> dom I \<Longrightarrow> strings_HasPrefix t P \<Longrightarrow> u \<in> set ?r \<Longrightarrow> the (I u) < the (I t)
             \<Longrightarrow> t \<in> set ?r"
  proof (rule ccontr)
    fix t u assume "t \<in> dom I" "strings_HasPrefix t P" and u: "u \<in> set ?r"
      and lt: "the (I u) < the (I t)" and "t \<notin> set ?r"
    then have "t \<in> set (drop ?k ?full)" using mem split by blast
    from cross [OF u this] lt show False by simp
  qed
  have b: "\<And>t. t \<in> dom I \<Longrightarrow> strings_HasPrefix t P \<Longrightarrow> t \<notin> set ?r \<Longrightarrow> length ?r = ?k"
  proof -
    fix t assume "t \<in> dom I" "strings_HasPrefix t P" "t \<notin> set ?r"
    then have "t \<in> set (drop ?k ?full)" using mem split by blast
    then have "drop ?k ?full \<noteq> []" by auto
    then show "length ?r = ?k" by simp
  qed
  from f s a b show ?thesis by blast
qed

theorem complete_ranked_witness:
  "range_of [''the'' \<mapsto> 3, ''tan'' \<mapsto> 1, ''cat'' \<mapsto> 2] [(''tan'', 1), (''cat'', 2), (''the'', 3)]
   \<and> (0::int) \<le> 1
   \<and> (\<exists>r. firstN (complete ''t'' [(''tan'', 1), (''cat'', 2), (''the'', 3)]) 1 = Inr r
          \<and> sorted_wrt (\<lambda>u v. the ([''the'' \<mapsto> 3, ''tan'' \<mapsto> 1, ''cat'' \<mapsto> 2] v)
                             \<le> the ([''the'' \<mapsto> (3::int), ''tan'' \<mapsto> 1, ''cat'' \<mapsto> 2] u)) r)
   \<and> firstN (complete ''t'' [(''tan'', 1), (''cat'', 2), (''the'', 3)]) 1 = Inr [''the'']"
proof -
  have h1: "range_of [''the'' \<mapsto> 3, ''tan'' \<mapsto> 1, ''cat'' \<mapsto> 2] [(''tan'', 1), (''cat'', 2), (''the'', 3)]"
    by (auto simp: range_of_def)
  have h2: "(0::int) \<le> 1" by simp
  have e: "firstN (complete ''t'' [(''tan'', 1), (''cat'', 2), (''the'', 3)]) 1 = Inr [''the'']"
    by code_simp
  from complete_ranked [OF h1 h2, of "''t''"] h1 h2 e show ?thesis by blast
qed

text \<open>
  C5. For every frequency map \<open>I\<close>, every visit \<open>es\<close> of its entries, every prefix \<open>P\<close>
  and every limit \<open>n \<ge> 0\<close>, every returned token is a key of \<open>I\<close> that starts with
  \<open>P\<close>, character for character (it is \<open>P\<close> followed by some rest); when no key starts
  with \<open>P\<close> the result is the empty sequence, not an error; and with the empty prefix
  complete returns every key of the map.
\<close>

theorem complete_sound:
  assumes "range_of I es" and "0 \<le> n"
  shows "\<exists>r. firstN (complete P es) n = Inr r
           \<and> (\<forall>t. t \<in> set r \<longrightarrow> t \<in> dom I \<and> strings_HasPrefix t P \<and> (\<exists>rest. t = P @ rest))
           \<and> ((\<forall>t. t \<in> dom I \<longrightarrow> \<not> strings_HasPrefix t P) \<longrightarrow> complete P es = [] \<and> r = [])
           \<and> set (complete [] es) = dom I"
proof -
  let ?r = "take (nat n) (complete P es)"
  have f: "firstN (complete P es) n = Inr ?r" using assms(2) by (rule firstN_nonneg)
  have sc: "set (complete P es) = {w \<in> dom I. strings_HasPrefix w P}"
    by (rule set_complete [OF assms(1)])
  have a: "\<And>t. t \<in> set ?r \<Longrightarrow> t \<in> dom I \<and> strings_HasPrefix t P \<and> (\<exists>rest. t = P @ rest)"
  proof -
    fix t assume "t \<in> set ?r"
    then have "t \<in> set (complete P es)" by (rule in_set_takeD)
    then show "t \<in> dom I \<and> strings_HasPrefix t P \<and> (\<exists>rest. t = P @ rest)"
      unfolding sc using strings_HasPrefix_iff by auto
  qed
  have b: "(\<forall>t. t \<in> dom I \<longrightarrow> \<not> strings_HasPrefix t P) \<Longrightarrow> complete P es = [] \<and> ?r = []"
  proof -
    assume "\<forall>t. t \<in> dom I \<longrightarrow> \<not> strings_HasPrefix t P"
    then have "set (complete P es) = {}" unfolding sc by blast
    then show ?thesis by simp
  qed
  have c: "set (complete [] es) = dom I"
    using set_complete [OF assms(1), of "[]"] by (simp add: strings_HasPrefix_empty)
  from f a b c show ?thesis by blast
qed

theorem complete_sound_witness:
  "range_of [''the'' \<mapsto> 3, ''tan'' \<mapsto> 1, ''cat'' \<mapsto> 2] [(''tan'', 1), (''cat'', 2), (''the'', 3)]
   \<and> (0::int) \<le> 5
   \<and> (\<exists>r. firstN (complete ''t'' [(''tan'', 1), (''cat'', 2), (''the'', 3)]) 5 = Inr r
          \<and> ''the'' \<in> set r \<and> strings_HasPrefix ''the'' ''t'')
   \<and> set (complete [] [(''tan'', 1), (''cat'', 2), (''the'', 3)])
       = dom [''the'' \<mapsto> (3::int), ''tan'' \<mapsto> 1, ''cat'' \<mapsto> 2]"
proof -
  have h1: "range_of [''the'' \<mapsto> 3, ''tan'' \<mapsto> 1, ''cat'' \<mapsto> 2] [(''tan'', 1), (''cat'', 2), (''the'', 3)]"
    by (auto simp: range_of_def)
  have h2: "(0::int) \<le> 5" by simp
  have e: "firstN (complete ''t'' [(''tan'', 1), (''cat'', 2), (''the'', 3)]) 5 = Inr [''the'', ''tan'']"
    by code_simp
  from complete_sound [OF h1 h2, of "''t''"] obtain r where
    r: "firstN (complete ''t'' [(''tan'', 1), (''cat'', 2), (''the'', 3)]) 5 = Inr r"
    and p: "\<forall>t. t \<in> set r \<longrightarrow> t \<in> dom [''the'' \<mapsto> (3::int), ''tan'' \<mapsto> 1, ''cat'' \<mapsto> 2]
              \<and> strings_HasPrefix t ''t'' \<and> (\<exists>rest. t = ''t'' @ rest)"
    and d: "set (complete [] [(''tan'', 1), (''cat'', 2), (''the'', 3)])
       = dom [''the'' \<mapsto> (3::int), ''tan'' \<mapsto> 1, ''cat'' \<mapsto> 2]"
    by blast
  from r e have "r = [''the'', ''tan'']" by simp
  then have "''the'' \<in> set r" by simp
  with p have "strings_HasPrefix ''the'' ''t''" by blast
  with h1 h2 r d \<open>''the'' \<in> set r\<close> show ?thesis by blast
qed

section \<open>Properties of respond\<close>

text \<open>
  C9. The claim is about every incoming request. The handler first parses the request
  URI again and panics when that fails, before it validates anything and before it
  writes a status or a body: such a request, here one with the method GET and an empty
  term, gets no "Unsupported request" response from the handler.
\<close>

theorem respond_panics_counterexample:
  "respond (\<lambda>s. ''\"'' @ s @ ''\"'') [(''the'', 3)]
     \<lparr>Method = ''GET'', RequestURI_parsed = Inl ParseError, URL_Query_term = ''''\<rparr>
   = Inl ParseError
   \<and> respond (\<lambda>s. ''\"'' @ s @ ''\"'') [(''the'', 3)]
     \<lparr>Method = ''GET'', RequestURI_parsed = Inl ParseError, URL_Query_term = ''''\<rparr>
   \<noteq> Inr unsupportedRequest"
  by (simp add: respond_def)

text \<open>
  C9, as amended. For every incoming request whose request URI \<^verbatim>\<open>url.Parse\<close> accepts: if
  the method is not GET, or the path is not the autocomplete endpoint, or the term
  parameter is empty, the handler responds with status 400 and the body
  \<^verbatim>\<open>{"message": "Unsupported request"}\<close>; otherwise it computes the completion of the
  term over the index, keeps its first 25 tokens and responds with status 200 and the
  body \<^verbatim>\<open>{"matches":[...]}\<close> that lists those tokens in their order. When \<^verbatim>\<open>url.Parse\<close>
  rejects the request URI the handler panics with the parse error and responds with
  nothing.
\<close>

theorem respond_contract:
  "(\<forall>err. RequestURI_parsed r = Inl err \<longrightarrow> respond jsonString countMap r = Inl err)
   \<and> (\<forall>path. RequestURI_parsed r = Inr path
          \<and> (Method r \<noteq> ''GET'' \<or> path \<noteq> ''/autocomplete'' \<or> URL_Query_term r = '''')
        \<longrightarrow> respond jsonString countMap r = Inr unsupportedRequest)
   \<and> (RequestURI_parsed r = Inr ''/autocomplete'' \<and> Method r = ''GET'' \<and> URL_Query_term r \<noteq> ''''
        \<longrightarrow> (\<exists>top25. firstN (complete (URL_Query_term r) countMap) 25 = Inr top25
                  \<and> top25 = take 25 (complete (URL_Query_term r) countMap)
                  \<and> respond jsonString countMap r =
                      Inr \<lparr>status = 200, contentType = ''application/json'',
                           body = ''{\"matches\":['' @ json_elements (map jsonString top25) @ '']}''\<rparr>))
   \<and> unsupportedRequest =
       \<lparr>status = 400, contentType = ''application/json'',
        body = ''{\"message\": \"Unsupported request\"}''\<rparr>"
proof -
  have f: "firstN (complete (URL_Query_term r) countMap) 25
           = Inr (take 25 (complete (URL_Query_term r) countMap))"
    using firstN_nonneg [of 25 "complete (URL_Query_term r) countMap"] by simp
  have a: "\<And>err. RequestURI_parsed r = Inl err \<Longrightarrow> respond jsonString countMap r = Inl err"
    by (simp add: respond_def)
  have b: "\<And>path. RequestURI_parsed r = Inr path
          \<and> (Method r \<noteq> ''GET'' \<or> path \<noteq> ''/autocomplete'' \<or> URL_Query_term r = '''')
        \<Longrightarrow> respond jsonString countMap r = Inr unsupportedRequest"
    by (auto simp: respond_def Let_def)
  have c: "RequestURI_parsed r = Inr ''/autocomplete'' \<and> Method r = ''GET'' \<and> URL_Query_term r \<noteq> ''''
        \<Longrightarrow> respond jsonString countMap r =
                      Inr \<lparr>status = 200, contentType = ''application/json'',
                           body = ''{\"matches\":['' @ json_elements (map jsonString
                              (take 25 (complete (URL_Query_term r) countMap))) @ '']}''\<rparr>"
    by (simp add: respond_def Let_def f json_Marshal_def matchesResponse_def)
  have d: "unsupportedRequest =
       \<lparr>status = 400, contentType = ''application/json'',
        body = ''{\"message\": \"Unsupported request\"}''\<rparr>"
    by (simp add: unsupportedRequest_def)
  from a b c d f show ?thesis by blast
qed

theorem respond_contract_witness:
  "RequestURI_parsed \<lparr>Method = ''GET'', RequestURI_parsed = Inr ''/autocomplete'',
                      URL_Query_term = ''t''\<rparr> = Inr ''/autocomplete''
   \<and> respond (\<lambda>s. ''\"'' @ s @ ''\"'') [(''the'', 3), (''cat'', 2), (''tan'', 1)]
       \<lparr>Method = ''GET'', RequestURI_parsed = Inr ''/autocomplete'', URL_Query_term = ''t''\<rparr>
     = Inr \<lparr>status = 200, contentType = ''application/json'',
            body = ''{\"matches\":[\"the\",\"tan\"]}''\<rparr>
   \<and> respond (\<lambda>s. ''\"'' @ s @ ''\"'') [(''the'', 3), (''cat'', 2), (''tan'', 1)]
       \<lparr>Method = ''POST'', RequestURI_parsed = Inr ''/autocomplete'', URL_Query_term = ''t''\<rparr>
     = Inr unsupportedRequest"
proof -
  let ?q = "\<lambda>s. ''\"'' @ s @ ''\"''"
  let ?cm = "[(''the'', 3), (''cat'', 2), (''tan'', 1::int)]"
  let ?r = "\<lparr>Method = ''GET'', RequestURI_parsed = Inr ''/autocomplete'', URL_Query_term = ''t''\<rparr>"
  let ?p = "\<lparr>Method = ''POST'', RequestURI_parsed = Inr ''/autocomplete'', URL_Query_term = ''t''\<rparr>"
  have e: "take 25 (complete ''t'' ?cm) = [''the'', ''tan'']" by code_simp
  from respond_contract [of ?r ?q ?cm] obtain top25 where
    "top25 = take 25 (complete ''t'' ?cm)"
    and "respond ?q ?cm ?r = Inr \<lparr>status = 200, contentType = ''application/json'',
                           body = ''{\"matches\":['' @ json_elements (map ?q top25) @ '']}''\<rparr>"
    by auto
  with e have g: "respond ?q ?cm ?r = Inr \<lparr>status = 200, contentType = ''application/json'',
            body = ''{\"matches\":[\"the\",\"tan\"]}''\<rparr>"
    by simp
  from respond_contract [of ?p ?q ?cm] have p: "respond ?q ?cm ?p = Inr unsupportedRequest"
    by simp
  from g p show ?thesis by simp
qed

end
